theory Spec2Isabelle
  imports Complex_Main "HOL-Library.Sublist"
begin

section \<open>Numbers\<close>

text \<open>
  The hooks compute with JavaScript numbers. Page sizes, limits, page numbers requested by
  the consumer and document counts are integers and are modelled as \<open>int\<close>. Two fields of
  the state can leave the integers even when every input is an integer: \<open>page\<close>
  (\<open>undefined + 1\<close> is \<open>NaN\<close>) and \<open>pageCount\<close> (\<open>n / 0\<close> is \<open>Infinity\<close> or \<open>NaN\<close>).
  Those two fields therefore hold a \<open>jsnum\<close>: an integer, an infinity or \<open>NaN\<close>.
\<close>

datatype jsnum = Num int | PosInf | NegInf | NaN

text \<open>\<open>!x\<close> for a number or \<open>undefined\<close>: \<open>undefined\<close>, \<open>0\<close> and \<open>NaN\<close> are falsy.\<close>

fun js_truthy :: "jsnum option \<Rightarrow> bool" where
  "js_truthy None = False"
| "js_truthy (Some (Num k)) = (k \<noteq> 0)"
| "js_truthy (Some NaN) = False"
| "js_truthy (Some PosInf) = True"
| "js_truthy (Some NegInf) = True"

text \<open>\<open>ToNumber\<close>: \<open>undefined\<close> converts to \<open>NaN\<close> in arithmetic.\<close>

fun to_number :: "jsnum option \<Rightarrow> jsnum" where
  "to_number None = NaN"
| "to_number (Some x) = x"

text \<open>\<open>x + k\<close> and \<open>x - k\<close> for an integer \<open>k\<close>.\<close>

fun js_add_int :: "jsnum \<Rightarrow> int \<Rightarrow> jsnum" where
  "js_add_int (Num a) k = Num (a + k)"
| "js_add_int PosInf k = PosInf"
| "js_add_int NegInf k = NegInf"
| "js_add_int NaN k = NaN"

definition js_sub_int :: "jsnum \<Rightarrow> int \<Rightarrow> jsnum" where
  "js_sub_int x k = js_add_int x (- k)"

text \<open>\<open>x * k\<close> for an integer \<open>k\<close>: an infinity times zero is \<open>NaN\<close>.\<close>

fun js_mul_int :: "jsnum \<Rightarrow> int \<Rightarrow> jsnum" where
  "js_mul_int (Num a) k = Num (a * k)"
| "js_mul_int PosInf k = (if k = 0 then NaN else if 0 < k then PosInf else NegInf)"
| "js_mul_int NegInf k = (if k = 0 then NaN else if 0 < k then NegInf else PosInf)"
| "js_mul_int NaN k = NaN"

text \<open>\<open>k > x\<close> for an integer \<open>k\<close>: every comparison with \<open>NaN\<close> is false.\<close>

fun js_int_gt :: "int \<Rightarrow> jsnum \<Rightarrow> bool" where
  "js_int_gt k (Num a) = (a < k)"
| "js_int_gt k PosInf = False"
| "js_int_gt k NegInf = True"
| "js_int_gt k NaN = False"

text \<open>
  \<open>Math.ceil(n / d)\<close> for a length \<open>n\<close> and an integer \<open>d\<close>. Division by zero does not
  fail in JavaScript: \<open>0 / 0\<close> is \<open>NaN\<close> and \<open>n / 0\<close> is \<open>Infinity\<close> for \<open>n > 0\<close>.
\<close>

definition js_ceil_div :: "nat \<Rightarrow> int \<Rightarrow> jsnum" where
  "js_ceil_div n d =
     (if d = 0 then (if n = 0 then NaN else PosInf)
      else Num \<lceil>(of_nat n :: real) / of_int d\<rceil>)"

section \<open>useRxQuery: options, mode, state and actions\<close>

datatype sort_order = asc | desc

text \<open>\<open>UseRxQueryOptions\<close>: every field is optional.\<close>

record UseRxQueryOptions =
  pageSize :: "int option"
  startingPage :: "int option"
  sortBy :: "string option"
  sortOrder :: "sort_order option"
  json :: "bool option"

datatype PaginationMode = Traditional | InfiniteScroll | NoPagination

text \<open>\<open>!pageSize\<close> and \<open>!startingPage\<close> for an optional integer.\<close>

fun falsy_int :: "int option \<Rightarrow> bool" where
  "falsy_int None = True"
| "falsy_int (Some k) = (k = 0)"

definition getPaginationMode :: "UseRxQueryOptions \<Rightarrow> PaginationMode" where
  "getPaginationMode options =
     (if falsy_int (pageSize options) then NoPagination
      else if falsy_int (startingPage options) then InfiniteScroll
      else Traditional)"

text \<open>The destructuring defaults of \<open>useRxQuery\<close>: \<open>pageSize = 0\<close>, \<open>sortOrder = 'desc'\<close>.\<close>

definition pageSize_of :: "UseRxQueryOptions \<Rightarrow> int" where
  "pageSize_of options = (case pageSize options of None \<Rightarrow> 0 | Some k \<Rightarrow> k)"

definition sortOrder_of :: "UseRxQueryOptions \<Rightarrow> sort_order" where
  "sortOrder_of options = (case sortOrder options of None \<Rightarrow> desc | Some x \<Rightarrow> x)"

record 'a RxState =
  result :: "'a list"
  isFetching :: bool
  isExhausted :: bool
  limit :: int
  page :: "jsnum option"
  pageCount :: jsnum

datatype 'a AnyAction =
    Reset int
  | FetchMore int
  | FetchPage int
  | CountPages jsnum
  | FetchSuccess "'a list"
  | QueryChanged

fun reducer :: "'a RxState \<Rightarrow> 'a AnyAction \<Rightarrow> 'a RxState" where
  "reducer state (Reset ps) =
     state\<lparr>result := [], isFetching := True, limit := ps\<rparr>"
| "reducer state (FetchMore ps) =
     state\<lparr>isFetching := True,
           page := Some (js_add_int (to_number (page state)) 1),
           limit := limit state + ps\<rparr>"
| "reducer state (FetchPage p) =
     state\<lparr>isFetching := True, page := Some (Num p)\<rparr>"
| "reducer state (CountPages c) =
     state\<lparr>pageCount := c\<rparr>"
| "reducer state (FetchSuccess docs) =
     state\<lparr>result := docs,
           isFetching := False,
           isExhausted := (limit state = 0 \<or> int (length docs) < limit state)\<rparr>"
| "reducer state QueryChanged =
     state\<lparr>isFetching := True\<rparr>"

definition initialState :: "UseRxQueryOptions \<Rightarrow> 'a RxState" where
  "initialState options =
     \<lparr>result = [],
      isFetching = True,
      isExhausted = False,
      limit = (if getPaginationMode options = InfiniteScroll then pageSize_of options else 0),
      page = (if getPaginationMode options = InfiniteScroll then Some (Num 1)
              else map_option Num (startingPage options)),
      pageCount = Num 0\<rparr>"

section \<open>useRxQuery: the callbacks handed to the consumer\<close>

text \<open>
  Each callback is created by a render and reads the state of that render. It either
  returns without effect or dispatches one action, and the reducer applies a dispatched
  action to the current state. The two states differ when an earlier call made before
  the component is rendered again has dispatched already. \<open>fetchMore\<close> keeps them
  apart, since its guard reads flags that its own dispatch writes: it takes the state of
  its render and the current state, and returns the state after the call. \<open>fetchPage\<close>
  and \<open>resetList\<close> are given for a call on the state of their render.
\<close>

definition fetchPage :: "UseRxQueryOptions \<Rightarrow> 'a RxState \<Rightarrow> int \<Rightarrow> 'a RxState" where
  "fetchPage options state p =
     (if getPaginationMode options \<noteq> Traditional then state
      else if p < 0 \<or> js_int_gt p (pageCount state) then state
      else reducer state (FetchPage p))"

definition fetchMore :: "UseRxQueryOptions \<Rightarrow> 'a RxState \<Rightarrow> 'a RxState \<Rightarrow> 'a RxState" where
  "fetchMore options rendered current =
     (if getPaginationMode options \<noteq> InfiniteScroll then current
      else if isFetching rendered \<or> isExhausted rendered then current
      else reducer current (FetchMore (pageSize_of options)))"

definition resetList :: "UseRxQueryOptions \<Rightarrow> 'a RxState \<Rightarrow> 'a RxState" where
  "resetList options state =
     (if getPaginationMode options \<noteq> InfiniteScroll then state
      else if limit state \<le> pageSize_of options then state
      else reducer state (Reset (pageSize_of options)))"

section \<open>useRxData: state and reducer\<close>

record 'a RxDataState =
  data_result :: "'a list"
  data_isFetching :: bool
  exhausted :: bool
  data_limit :: int

datatype 'a DataAction =
    DataReset int
  | DataFetchMore int
  | DataFetchSuccess "'a list"

fun data_reducer :: "'a RxDataState \<Rightarrow> 'a DataAction \<Rightarrow> 'a RxDataState" where
  "data_reducer state (DataReset ps) =
     state\<lparr>data_result := [], data_isFetching := True, data_limit := ps\<rparr>"
| "data_reducer state (DataFetchMore ps) =
     state\<lparr>data_isFetching := True, data_limit := data_limit state + ps\<rparr>"
| "data_reducer state (DataFetchSuccess docs) =
     state\<lparr>data_result := docs,
           data_isFetching := False,
           exhausted := (data_limit state = 0 \<or> int (length docs) < data_limit state)\<rparr>"

section \<open>useRxQuery: the query built for the data source\<close>

text \<open>
  An \<open>RxQuery\<close> is known here by its identity and by the \<open>skip\<close>, \<open>limit\<close> and \<open>sort\<close>
  that the builder calls of the hook put on it; each builder call returns a new query.
\<close>

record query_desc =
  q_base :: nat
  q_skip :: "jsnum option"
  q_limit :: "int option"
  q_sort :: "(string \<times> sort_order) option"

definition base_query :: "nat \<Rightarrow> query_desc" where
  "base_query q = \<lparr>q_base = q, q_skip = None, q_limit = None, q_sort = None\<rparr>"

definition skip_q :: "jsnum \<Rightarrow> query_desc \<Rightarrow> query_desc" where
  "skip_q n q = q\<lparr>q_skip := Some n\<rparr>"

definition limit_q :: "int \<Rightarrow> query_desc \<Rightarrow> query_desc" where
  "limit_q n q = q\<lparr>q_limit := Some n\<rparr>"

definition sort_q :: "string \<Rightarrow> sort_order \<Rightarrow> query_desc \<Rightarrow> query_desc" where
  "sort_q f ord q = q\<lparr>q_sort := Some (f, ord)\<rparr>"

text \<open>\<open>if (sortBy)\<close>: \<open>undefined\<close> and the empty string are falsy.\<close>

fun truthy_string :: "string option \<Rightarrow> bool" where
  "truthy_string None = False"
| "truthy_string (Some f) = (f \<noteq> [])"

text \<open>
  The first half of the result effect: the query that is subscribed to, from the query
  argument, the options and the state of the render.
\<close>

definition materialize_query :: "UseRxQueryOptions \<Rightarrow> 'a RxState \<Rightarrow> nat \<Rightarrow> query_desc" where
  "materialize_query options state q =
     (let q0 = base_query q;
          q1 = (if getPaginationMode options = Traditional
                then limit_q (pageSize_of options)
                       (skip_q (js_mul_int (js_sub_int (to_number (page state)) 1)
                                  (pageSize_of options)) q0)
                else q0);
          q2 = (if getPaginationMode options = InfiniteScroll
                then limit_q (limit state) q1 else q1)
      in (case sortBy options of
            None \<Rightarrow> q2
          | Some f \<Rightarrow> if truthy_string (Some f) then sort_q f (sortOrder_of options) q2 else q2))"

section \<open>useRxQuery: subscriptions and effects\<close>

text \<open>
  A mounted hook is its reducer state, the query argument of the last render
  (\<open>None\<close> when \<open>isRxQuery(query)\<close> is false), and for each of its two effects the
  dependencies of the last run and the subscription that the cleanup returned by that
  run releases. The subscriptions open at the data source are kept in a list, and every
  subscribe, unsubscribe and delivered emission is appended to a history.
\<close>

datatype role = ResultSub | CountSub

record subscription =
  sub_id :: nat
  sub_role :: role
  sub_query :: query_desc

datatype op = Subscribed nat role | Unsubscribed nat | Delivered nat role

type_synonym result_deps_t =
  "nat option \<times> int \<times> PaginationMode \<times> string option \<times> sort_order \<times> int \<times> jsnum option"

type_synonym count_deps_t = "jsnum option \<times> nat option \<times> int"

record 'a hook =
  state :: "'a RxState"
  query :: "nat option"
  result_deps :: "result_deps_t option"
  result_cleanup :: "nat option"
  count_deps :: "count_deps_t option"
  count_cleanup :: "nat option"
  subscriptions :: "subscription list"
  next_sub :: nat
  history :: "op list"
  mounted :: bool

text \<open>\<open>query.$.subscribe(callback)\<close> and \<open>sub.unsubscribe()\<close>.\<close>

definition subscribe :: "role \<Rightarrow> query_desc \<Rightarrow> 'a hook \<Rightarrow> nat \<times> 'a hook" where
  "subscribe r q h =
     (next_sub h,
      h\<lparr>subscriptions := subscriptions h @ [\<lparr>sub_id = next_sub h, sub_role = r, sub_query = q\<rparr>],
        next_sub := Suc (next_sub h),
        history := history h @ [Subscribed (next_sub h) r]\<rparr>)"

definition unsubscribe :: "nat \<Rightarrow> 'a hook \<Rightarrow> 'a hook" where
  "unsubscribe i h =
     h\<lparr>subscriptions := filter (\<lambda>s. sub_id s \<noteq> i) (subscriptions h),
       history := history h @ [Unsubscribed i]\<rparr>"

text \<open>
  The body of the result effect. It returns early, with no cleanup, when the query is
  not an \<open>RxQuery\<close>; otherwise it dispatches \<open>QueryChanged\<close>, subscribes to the
  materialized query and returns the cleanup that releases this subscription.
\<close>

definition result_effect :: "UseRxQueryOptions \<Rightarrow> 'a hook \<Rightarrow> nat option \<times> 'a hook" where
  "result_effect options h =
     (case query h of
        None \<Rightarrow> (None, h)
      | Some q \<Rightarrow>
          (let rxq = materialize_query options (state h) q;
               h1 = h\<lparr>state := reducer (state h) QueryChanged\<rparr>;
               (i, h2) = subscribe ResultSub rxq h1
           in (Some i, h2)))"

text \<open>
  The body of the count effect: it returns early when \<open>state.page\<close> is falsy or the
  query is not an \<open>RxQuery\<close>, and otherwise subscribes to the query as it was passed in.
\<close>

definition count_effect :: "UseRxQueryOptions \<Rightarrow> 'a hook \<Rightarrow> nat option \<times> 'a hook" where
  "count_effect options h =
     (if \<not> js_truthy (page (state h)) then (None, h)
      else (case query h of
              None \<Rightarrow> (None, h)
            | Some q \<Rightarrow>
                (let (i, h1) = subscribe CountSub (base_query q) h
                 in (Some i, h1))))"

text \<open>The two subscription callbacks: an emission is an array of documents or one document.\<close>

datatype 'a emission = Docs "'a list" | Doc 'a

fun as_array :: "'a emission \<Rightarrow> 'a list" where
  "as_array (Docs ds) = ds"
| "as_array (Doc d) = [d]"

definition result_callback ::
  "('a \<Rightarrow> 'a) \<Rightarrow> UseRxQueryOptions \<Rightarrow> 'a emission \<Rightarrow> 'a AnyAction" where
  "result_callback toJSON options documents =
     (let docs = as_array documents
      in FetchSuccess (if json options = Some True then map toJSON docs else docs))"

definition count_callback :: "UseRxQueryOptions \<Rightarrow> 'a emission \<Rightarrow> 'a AnyAction" where
  "count_callback options documents =
     (let docs = as_array documents
      in CountPages (js_ceil_div (length docs) (pageSize_of options)))"

text \<open>The dependency arrays of the two effects, read from a render.\<close>

definition result_deps_of :: "UseRxQueryOptions \<Rightarrow> 'a hook \<Rightarrow> result_deps_t" where
  "result_deps_of options h =
     (query h, pageSize_of options, getPaginationMode options, sortBy options,
      sortOrder_of options, limit (state h), page (state h))"

definition count_deps_of :: "UseRxQueryOptions \<Rightarrow> 'a hook \<Rightarrow> count_deps_t" where
  "count_deps_of options h = (page (state h), query h, pageSize_of options)"

fun cleanup :: "nat option \<Rightarrow> 'a hook \<Rightarrow> 'a hook" where
  "cleanup None h = h"
| "cleanup (Some i) h = unsubscribe i h"

text \<open>
  What React does with the effects after a render: an effect whose dependencies differ
  from those of its last run is run again; the cleanups of all such effects are called
  first, in the order of the hooks, then their bodies, in the same order, and the
  cleanup each body returns is kept for the next time.
\<close>

definition flush_effects :: "UseRxQueryOptions \<Rightarrow> 'a hook \<Rightarrow> 'a hook" where
  "flush_effects options h =
     (let rd = result_deps_of options h;
          cd = count_deps_of options h;
          run_r = (result_deps h \<noteq> Some rd);
          run_c = (count_deps h \<noteq> Some cd);
          h1 = (if run_r then cleanup (result_cleanup h) h else h);
          h2 = (if run_c then cleanup (count_cleanup h) h1 else h1);
          h3 = (if run_r
                then (let (c, h') = result_effect options h2
                      in h'\<lparr>result_deps := Some rd, result_cleanup := c\<rparr>)
                else h2);
          h4 = (if run_c
                then (let (c, h') = count_effect options h3
                      in h'\<lparr>count_deps := Some cd, count_cleanup := c\<rparr>)
                else h3)
      in h4)"

definition mount :: "UseRxQueryOptions \<Rightarrow> nat option \<Rightarrow> 'a hook" where
  "mount options q =
     flush_effects options
       \<lparr>state = initialState options, query = q,
        result_deps = None, result_cleanup = None,
        count_deps = None, count_cleanup = None,
        subscriptions = [], next_sub = 0, history = [], mounted = True\<rparr>"

text \<open>
  What can happen to a mounted hook: the consumer calls one of the three callbacks, a
  subscription emits, the component is rendered with another query, or it is unmounted.
  Each event is handled to the end, effects included, before the next one. An emission
  of a subscription that is no longer open is not delivered, and an unmounted hook
  handles nothing. With \<open>CallFetchMoreTimes n\<close> the consumer calls \<open>fetchMore\<close>
  \<open>n\<close> times in a row before the component is rendered again: every one of these calls
  goes through the callback of the same render and reads the state of that render.
\<close>

datatype 'a event =
    CallFetchMore
  | CallFetchMoreTimes nat
  | CallFetchPage int
  | CallResetList
  | Emit nat "'a emission"
  | SetQuery "nat option"
  | Unmount

definition deliver ::
  "('a \<Rightarrow> 'a) \<Rightarrow> UseRxQueryOptions \<Rightarrow> subscription \<Rightarrow> 'a emission \<Rightarrow> 'a hook \<Rightarrow> 'a hook" where
  "deliver toJSON options s documents h =
     h\<lparr>state := reducer (state h)
                  (case sub_role s of
                     ResultSub \<Rightarrow> result_callback toJSON options documents
                   | CountSub \<Rightarrow> count_callback options documents),
       history := history h @ [Delivered (sub_id s) (sub_role s)]\<rparr>"

definition step ::
  "('a \<Rightarrow> 'a) \<Rightarrow> UseRxQueryOptions \<Rightarrow> 'a hook \<Rightarrow> 'a event \<Rightarrow> 'a hook" where
  "step toJSON options h ev =
     (if \<not> mounted h then h
      else (case ev of
              CallFetchMore \<Rightarrow>
                flush_effects options (h\<lparr>state := fetchMore options (state h) (state h)\<rparr>)
            | CallFetchMoreTimes n \<Rightarrow>
                flush_effects options
                  (h\<lparr>state := (fetchMore options (state h) ^^ n) (state h)\<rparr>)
            | CallFetchPage p \<Rightarrow>
                flush_effects options (h\<lparr>state := fetchPage options (state h) p\<rparr>)
            | CallResetList \<Rightarrow>
                flush_effects options (h\<lparr>state := resetList options (state h)\<rparr>)
            | Emit i documents \<Rightarrow>
                (case find (\<lambda>s. sub_id s = i) (subscriptions h) of
                   None \<Rightarrow> h
                 | Some s \<Rightarrow> flush_effects options (deliver toJSON options s documents h))
            | SetQuery q \<Rightarrow>
                flush_effects options (h\<lparr>query := q\<rparr>)
            | Unmount \<Rightarrow>
                (cleanup (count_cleanup h) (cleanup (result_cleanup h) h))\<lparr>mounted := False\<rparr>))"

definition run ::
  "('a \<Rightarrow> 'a) \<Rightarrow> UseRxQueryOptions \<Rightarrow> nat option \<Rightarrow> 'a event list \<Rightarrow> 'a hook" where
  "run toJSON options q evs = foldl (step toJSON options) (mount options q) evs"

text \<open>Reading a history: the subscriptions open after a sequence of operations.\<close>

fun apply_op :: "(nat \<times> role) list \<Rightarrow> op \<Rightarrow> (nat \<times> role) list" where
  "apply_op open_subs (Subscribed i r) = open_subs @ [(i, r)]"
| "apply_op open_subs (Unsubscribed i) = filter (\<lambda>x. fst x \<noteq> i) open_subs"
| "apply_op open_subs (Delivered i r) = open_subs"

definition replay :: "op list \<Rightarrow> (nat \<times> role) list" where
  "replay ops = foldl apply_op [] ops"

definition open_in_role :: "role \<Rightarrow> (nat \<times> role) list \<Rightarrow> nat list" where
  "open_in_role r open_subs = map fst (filter (\<lambda>x. snd x = r) open_subs)"

fun delivered_ids :: "role \<Rightarrow> op list \<Rightarrow> nat list" where
  "delivered_ids r [] = []"
| "delivered_ids r (Delivered i r' # ops) =
     (if r' = r then i # delivered_ids r ops else delivered_ids r ops)"
| "delivered_ids r (_ # ops) = delivered_ids r ops"

fun subscribed_ids :: "op list \<Rightarrow> nat list" where
  "subscribed_ids [] = []"
| "subscribed_ids (Subscribed i r # ops) = i # subscribed_ids ops"
| "subscribed_ids (_ # ops) = subscribed_ids ops"

definition at_most_one :: "(nat \<times> role) list \<Rightarrow> bool" where
  "at_most_one open_subs \<longleftrightarrow>
     length (open_in_role ResultSub open_subs) \<le> 1
     \<and> length (open_in_role CountSub open_subs) \<le> 1"

definition open_subs :: "'a hook \<Rightarrow> (nat \<times> role) list" where
  "open_subs h = map (\<lambda>s. (sub_id s, sub_role s)) (subscriptions h)"

section \<open>Invariants of a hook\<close>

text \<open>
  The invariant of the subscription bookkeeping, over the open subscriptions, the next
  identifier and the history: the history replays to the open subscriptions;
  identifiers are fresh and never shared; after every prefix of the history at most one
  subscription of each role is open; an emission is delivered only from a subscription
  that is open at that moment; and the delivered emissions of a role come from
  subscriptions in the order in which these were opened.
\<close>

definition tr_inv :: "(nat \<times> role) list \<Rightarrow> nat \<Rightarrow> op list \<Rightarrow> bool" where
  "tr_inv subs n ops \<longleftrightarrow>
     replay ops = subs
     \<and> (\<forall>x \<in> set subs. fst x < n)
     \<and> distinct (map fst subs)
     \<and> (\<forall>p. prefix p ops \<longrightarrow> at_most_one (replay p))
     \<and> (\<forall>p i r. prefix (p @ [Delivered i r]) ops \<longrightarrow> (i, r) \<in> set (replay p))
     \<and> (\<forall>r. sorted (delivered_ids r ops)
            \<and> (\<forall>d \<in> set (delivered_ids r ops).
                  d < n \<and> (\<forall>x \<in> set subs. snd x = r \<longrightarrow> d \<le> fst x)))
     \<and> sorted_wrt (<) (subscribed_ids ops)
     \<and> (\<forall>i \<in> set (subscribed_ids ops). i < n)"

text \<open>The subscription that a kept cleanup releases.\<close>

fun held :: "nat option \<Rightarrow> role \<Rightarrow> (nat \<times> role) list" where
  "held None r = []"
| "held (Some i) r = [(i, r)]"

definition hook_inv :: "'a hook \<Rightarrow> nat option \<Rightarrow> nat option \<Rightarrow> bool" where
  "hook_inv h rc cc \<longleftrightarrow>
     tr_inv (open_subs h) (next_sub h) (history h)
     \<and> filter (\<lambda>x. snd x = ResultSub) (open_subs h) = held rc ResultSub
     \<and> filter (\<lambda>x. snd x = CountSub) (open_subs h) = held cc CountSub"

text \<open>
  The count effect keeps a cleanup exactly when it last ran with a truthy page and an
  \<open>RxQuery\<close>.
\<close>

definition count_coherent :: "'a hook \<Rightarrow> bool" where
  "count_coherent h \<longleftrightarrow>
     (case count_deps h of
        None \<Rightarrow> count_cleanup h = None
      | Some (p, q, ps) \<Rightarrow> (count_cleanup h \<noteq> None) = (js_truthy p \<and> q \<noteq> None))"

definition reach_inv :: "UseRxQueryOptions \<Rightarrow> 'a hook \<Rightarrow> bool" where
  "reach_inv options h \<longleftrightarrow>
     (if mounted h
      then hook_inv h (result_cleanup h) (count_cleanup h)
           \<and> count_coherent h
           \<and> count_deps h = Some (count_deps_of options h)
      else hook_inv h None None)"

text \<open>
  Without pagination and without a starting page the page stays falsy: no count
  subscription is ever opened and no page count is ever written.
\<close>

definition no_count_inv :: "'a hook \<Rightarrow> bool" where
  "no_count_inv h \<longleftrightarrow>
     \<not> js_truthy (page (state h))
     \<and> pageCount (state h) = Num 0
     \<and> (\<forall>s \<in> set (subscriptions h). sub_role s = ResultSub)
     \<and> (\<forall>i. Subscribed i CountSub \<notin> set (history h))
     \<and> (\<forall>i. Delivered i CountSub \<notin> set (history h))"

text \<open>In infinite-scroll mode the page is a number from 1 upwards.\<close>

definition page_from_one :: "'a hook \<Rightarrow> bool" where
  "page_from_one h \<longleftrightarrow> (\<exists>k. 1 \<le> k \<and> page (state h) = Some (Num k))"

text \<open>
  What the data model asks of a state: a limit that is not negative, and a page that is
  either undefined or a number from 1 upwards.
\<close>

fun page_ok :: "jsnum option \<Rightarrow> bool" where
  "page_ok None = True"
| "page_ok (Some (Num k)) = (1 \<le> k)"
| "page_ok (Some _) = False"

definition state_ok :: "'a RxState \<Rightarrow> bool" where
  "state_ok s \<longleftrightarrow> 0 \<le> limit s \<and> page_ok (page s)"

section \<open>Example configurations\<close>

definition infinite_opts :: UseRxQueryOptions where
  "infinite_opts =
     \<lparr>pageSize = Some 2, startingPage = None, sortBy = None, sortOrder = None, json = None\<rparr>"

definition traditional_opts :: UseRxQueryOptions where
  "traditional_opts =
     \<lparr>pageSize = Some 5, startingPage = Some 1, sortBy = Some ''name'', sortOrder = Some asc,
      json = None\<rparr>"

definition plain_opts :: UseRxQueryOptions where
  "plain_opts =
     \<lparr>pageSize = None, startingPage = None, sortBy = None, sortOrder = None, json = None\<rparr>"

definition unpaged_start_opts :: UseRxQueryOptions where
  "unpaged_start_opts =
     \<lparr>pageSize = None, startingPage = Some 3, sortBy = None, sortOrder = None, json = None\<rparr>"

definition scroll_events :: "nat event list" where
  "scroll_events =
     [Emit 0 (Docs [1, 2]), CallFetchMore, Emit 0 (Docs [7]), Emit 2 (Docs [1, 2, 3]), Unmount]"

definition plain_events :: "nat event list" where
  "plain_events =
     [Emit 0 (Docs [1, 2, 3]), Emit 1 (Docs [1, 2, 3]), CallFetchPage 2, CallFetchMore,
      SetQuery (Some 4), Emit 1 (Doc 5)]"

definition idle_state :: "nat RxState" where
  "idle_state =
     \<lparr>result = [10, 20], isFetching = False, isExhausted = False, limit = 6,
      page = Some (Num 3), pageCount = Num 4\<rparr>"

section \<open>Properties of the reducers\<close>

text \<open>
  C1. For every state and every sequence of items, a \<open>FetchSuccess\<close> stores the items as
  the result, clears \<open>isFetching\<close>, and sets \<open>isExhausted\<close> exactly when the limit of the
  state before is zero or fewer items than the limit arrived. The reducer of \<open>useRxData\<close>
  does the same with its \<open>exhausted\<close> flag.
\<close>

theorem reducer_FetchSuccess:
  "result (reducer s (FetchSuccess items)) = items
   \<and> isFetching (reducer s (FetchSuccess items)) = False
   \<and> isExhausted (reducer s (FetchSuccess items))
        = (limit s = 0 \<or> int (length items) < limit s)
   \<and> data_result (data_reducer d (DataFetchSuccess items)) = items
   \<and> data_isFetching (data_reducer d (DataFetchSuccess items)) = False
   \<and> exhausted (data_reducer d (DataFetchSuccess items))
        = (data_limit d = 0 \<or> int (length items) < data_limit d)"
  by simp

text \<open>
  C10. A \<open>Reset\<close> changes only \<open>result\<close>, \<open>isFetching\<close> and \<open>limit\<close>: \<open>isExhausted\<close>,
  \<open>page\<close> and \<open>pageCount\<close> keep their values, so a raised \<open>isExhausted\<close> flag survives
  the reset. No action but \<open>FetchSuccess\<close> writes \<open>isExhausted\<close>. The reducer of
  \<open>useRxData\<close> keeps its \<open>exhausted\<close> flag on a reset as well.
\<close>

theorem reducer_Reset_frame:
  "reducer s (Reset n) = s\<lparr>result := [], isFetching := True, limit := n\<rparr>
   \<and> isExhausted (reducer s (Reset n)) = isExhausted s
   \<and> page (reducer s (Reset n)) = page s
   \<and> pageCount (reducer s (Reset n)) = pageCount s
   \<and> (isExhausted s \<longrightarrow> isExhausted (reducer s (Reset n)))
   \<and> ((\<forall>docs. a \<noteq> FetchSuccess docs) \<longrightarrow> isExhausted (reducer s a) = isExhausted s)
   \<and> exhausted (data_reducer d (DataReset n)) = exhausted d"
  by (cases a) simp_all

theorem reducer_Reset_frame_witness:
  "isExhausted (reducer (idle_state\<lparr>isExhausted := True\<rparr>) (Reset 2))
   \<and> isExhausted (reducer (reducer (idle_state\<lparr>isExhausted := True\<rparr>) (Reset 2)) QueryChanged)
   \<and> page (reducer idle_state (Reset 2)) = Some (Num 3)
   \<and> pageCount (reducer idle_state (Reset 2)) = Num 4"
  using reducer_Reset_frame [of "idle_state\<lparr>isExhausted := True\<rparr>" 2 QueryChanged]
        reducer_Reset_frame [of "reducer (idle_state\<lparr>isExhausted := True\<rparr>) (Reset 2)" 2 QueryChanged]
        reducer_Reset_frame [of idle_state 2 QueryChanged]
  by (simp add: idle_state_def)

section \<open>Properties of the callbacks\<close>

text \<open>
  C5. \<open>fetchPage p\<close> leaves the state as it is unless the mode is \<open>Traditional\<close> and
  neither \<open>p < 0\<close> nor \<open>p > pageCount\<close> holds. Otherwise it dispatches \<open>FetchPage p\<close>:
  afterwards \<open>isFetching\<close> is true, \<open>page\<close> is \<open>p\<close>, and every other field is unchanged.
\<close>

theorem fetchPage_guard:
  "(getPaginationMode options \<noteq> Traditional \<or> p < 0 \<or> js_int_gt p (pageCount s)
      \<longrightarrow> fetchPage options s p = s)
   \<and> (getPaginationMode options = Traditional \<and> \<not> p < 0 \<and> \<not> js_int_gt p (pageCount s)
      \<longrightarrow> fetchPage options s p = reducer s (FetchPage p)
          \<and> isFetching (fetchPage options s p) = True
          \<and> page (fetchPage options s p) = Some (Num p)
          \<and> result (fetchPage options s p) = result s
          \<and> isExhausted (fetchPage options s p) = isExhausted s
          \<and> limit (fetchPage options s p) = limit s
          \<and> pageCount (fetchPage options s p) = pageCount s)"
  by (auto simp: fetchPage_def)

theorem fetchPage_guard_witness:
  "fetchPage traditional_opts idle_state (- 1) = idle_state
   \<and> fetchPage traditional_opts idle_state 5 = idle_state
   \<and> fetchPage infinite_opts idle_state 2 = idle_state
   \<and> fetchPage traditional_opts idle_state 4
        = idle_state\<lparr>isFetching := True, page := Some (Num 4)\<rparr>"
  using fetchPage_guard [of traditional_opts "- 1" idle_state]
        fetchPage_guard [of traditional_opts 5 idle_state]
        fetchPage_guard [of infinite_opts 2 idle_state]
        fetchPage_guard [of traditional_opts 4 idle_state]
  by (simp add: traditional_opts_def infinite_opts_def idle_state_def getPaginationMode_def)



section \<open>Properties of the subscriptions\<close>

text \<open>
  C8. In \<open>Traditional\<close> mode, in a state whose page is the number \<open>k\<close>, the query that
  is subscribed to skips \<open>(k - 1) * pageSize\<close> documents and is limited to \<open>pageSize\<close>
  documents, with the configured sort on top: for a page size of 5 and page 3 the query
  has skip 10 and limit 5.
\<close>

theorem traditional_query:
  "getPaginationMode options = Traditional \<Longrightarrow> page s = Some (Num k) \<Longrightarrow>
     q_skip (materialize_query options s q) = Some (Num ((k - 1) * pageSize_of options))
     \<and> q_limit (materialize_query options s q) = Some (pageSize_of options)
     \<and> q_base (materialize_query options s q) = q
     \<and> q_sort (materialize_query options s q)
         = (case sortBy options of
              None \<Rightarrow> None
            | Some f \<Rightarrow> if f = [] then None else Some (f, sortOrder_of options))"
  by (simp add: materialize_query_def base_query_def skip_q_def limit_q_def sort_q_def
        js_sub_int_def split: option.split)

theorem traditional_query_witness:
  "materialize_query traditional_opts idle_state 7
     = \<lparr>q_base = 7, q_skip = Some (Num 10), q_limit = Some 5, q_sort = Some (''name'', asc)\<rparr>"
  using traditional_query [of traditional_opts idle_state 3 7]
  by (simp add: traditional_opts_def idle_state_def getPaginationMode_def pageSize_of_def
        sortOrder_of_def)

section \<open>The history of subscriptions\<close>

lemma replay_Nil: "replay [] = []"
  by (simp add: replay_def)

lemma replay_snoc: "replay (ops @ [x]) = apply_op (replay ops) x"
  by (simp add: replay_def)

lemma delivered_ids_append:
  "delivered_ids r (xs @ ys) = delivered_ids r xs @ delivered_ids r ys"
  by (induction r xs rule: delivered_ids.induct) simp_all

lemma subscribed_ids_append:
  "subscribed_ids (xs @ ys) = subscribed_ids xs @ subscribed_ids ys"
  by (induction xs rule: subscribed_ids.induct) simp_all

lemma filter_le_one_unique:
  "length (filter P l) \<le> 1 \<Longrightarrow> x \<in> set l \<Longrightarrow> y \<in> set l \<Longrightarrow> P x \<Longrightarrow> P y \<Longrightarrow> x = y"
proof (induction l)
  case Nil
  then show ?case by simp
next
  case (Cons a l)
  show ?case
  proof (cases "P a")
    case True
    with Cons.prems(1) have "filter P l = []" by simp
    then have "\<forall>z \<in> set l. \<not> P z" by (simp add: filter_empty_conv)
    with Cons.prems show ?thesis by auto
  next
    case False
    with Cons show ?thesis by auto
  qed
qed

lemma at_most_one_filter:
  "at_most_one l \<Longrightarrow> at_most_one (filter P l)"
proof -
  have "length (filter Q (filter P l)) \<le> length (filter Q l)" for Q :: "nat \<times> role \<Rightarrow> bool"
    by (induction l) auto
  then show "at_most_one l \<Longrightarrow> at_most_one (filter P l)"
    unfolding at_most_one_def open_in_role_def length_map
    by (meson order_trans)
qed

lemma at_most_one_snoc:
  "at_most_one l \<Longrightarrow> filter (\<lambda>x. snd x = r) l = [] \<Longrightarrow> at_most_one (l @ [(i, r)])"
  by (cases r) (simp_all add: at_most_one_def open_in_role_def)

lemma at_most_one_unique:
  "at_most_one l \<Longrightarrow> (i, r) \<in> set l \<Longrightarrow> (j, r) \<in> set l \<Longrightarrow> i = j"
proof -
  assume a: "at_most_one l" and i: "(i, r) \<in> set l" and j: "(j, r) \<in> set l"
  from a have "length (filter (\<lambda>x. snd x = r) l) \<le> 1"
    by (cases r) (simp_all add: at_most_one_def open_in_role_def)
  from filter_le_one_unique [OF this i j] show "i = j" by simp
qed

lemma tr_inv_init: "tr_inv [] 0 []"
  by (simp add: tr_inv_def replay_Nil at_most_one_def open_in_role_def)

lemma tr_inv_at_most_one: "tr_inv l n hs \<Longrightarrow> at_most_one l"
  unfolding tr_inv_def by (metis prefix_order.order_refl)

lemma tr_inv_unsubscribe:
  assumes "tr_inv l n hs"
  shows "tr_inv (filter (\<lambda>x. fst x \<noteq> i) l) n (hs @ [Unsubscribed i])"
proof -
  note a = assms [unfolded tr_inv_def]
  have 1: "replay (hs @ [Unsubscribed i]) = filter (\<lambda>x. fst x \<noteq> i) l"
    using a by (simp add: replay_snoc)
  have 2: "\<forall>x \<in> set (filter (\<lambda>x. fst x \<noteq> i) l). fst x < n"
    using a by simp
  have 3: "distinct (map fst (filter (\<lambda>x. fst x \<noteq> i) l))"
    using a by (simp add: distinct_map_filter)
  have 4: "\<forall>p. prefix p (hs @ [Unsubscribed i]) \<longrightarrow> at_most_one (replay p)"
  proof (intro allI impI)
    fix p assume "prefix p (hs @ [Unsubscribed i])"
    then consider "p = hs @ [Unsubscribed i]" | "prefix p hs" by (auto simp: prefix_snoc)
    then show "at_most_one (replay p)"
    proof cases
      case 1
      then show ?thesis
        using tr_inv_at_most_one [OF assms] a by (simp add: replay_snoc at_most_one_filter)
    next
      case 2
      then show ?thesis using a by blast
    qed
  qed
  have 5: "\<forall>p j r. prefix (p @ [Delivered j r]) (hs @ [Unsubscribed i]) \<longrightarrow> (j, r) \<in> set (replay p)"
    using a by (auto simp: prefix_snoc)
  have 6: "\<forall>r. sorted (delivered_ids r (hs @ [Unsubscribed i]))
            \<and> (\<forall>d \<in> set (delivered_ids r (hs @ [Unsubscribed i])).
                  d < n \<and> (\<forall>x \<in> set (filter (\<lambda>x. fst x \<noteq> i) l). snd x = r \<longrightarrow> d \<le> fst x))"
    using a by (simp add: delivered_ids_append)
  have 7: "sorted_wrt (<) (subscribed_ids (hs @ [Unsubscribed i]))"
    using a by (simp add: subscribed_ids_append)
  have 8: "\<forall>j \<in> set (subscribed_ids (hs @ [Unsubscribed i])). j < n"
    using a by (simp add: subscribed_ids_append)
  show ?thesis
    unfolding tr_inv_def using 1 2 3 4 5 6 7 8 by blast
qed

lemma tr_inv_subscribe:
  assumes "tr_inv l n hs" and free: "filter (\<lambda>x. snd x = r) l = []"
  shows "tr_inv (l @ [(n, r)]) (Suc n) (hs @ [Subscribed n r])"
proof -
  note a = assms(1) [unfolded tr_inv_def]
  have 1: "replay (hs @ [Subscribed n r]) = l @ [(n, r)]"
    using a by (simp add: replay_snoc)
  have 2: "\<forall>x \<in> set (l @ [(n, r)]). fst x < Suc n"
    using a by (auto simp: less_Suc_eq)
  have 3: "distinct (map fst (l @ [(n, r)]))"
    using a by auto
  have 4: "\<forall>p. prefix p (hs @ [Subscribed n r]) \<longrightarrow> at_most_one (replay p)"
  proof (intro allI impI)
    fix p assume "prefix p (hs @ [Subscribed n r])"
    then consider "p = hs @ [Subscribed n r]" | "prefix p hs" by (auto simp: prefix_snoc)
    then show "at_most_one (replay p)"
    proof cases
      case 1
      then show ?thesis
        using tr_inv_at_most_one [OF assms(1)] a free by (simp add: replay_snoc at_most_one_snoc)
    next
      case 2
      then show ?thesis using a by blast
    qed
  qed
  have 5: "\<forall>p j r'. prefix (p @ [Delivered j r']) (hs @ [Subscribed n r]) \<longrightarrow> (j, r') \<in> set (replay p)"
    using a by (auto simp: prefix_snoc)
  have 6: "\<forall>r'. sorted (delivered_ids r' (hs @ [Subscribed n r]))
            \<and> (\<forall>d \<in> set (delivered_ids r' (hs @ [Subscribed n r])).
                  d < Suc n \<and> (\<forall>x \<in> set (l @ [(n, r)]). snd x = r' \<longrightarrow> d \<le> fst x))"
  proof (intro allI conjI ballI impI)
    fix r'
    show "sorted (delivered_ids r' (hs @ [Subscribed n r]))"
      using a by (simp add: delivered_ids_append)
  next
    fix r' d
    assume "d \<in> set (delivered_ids r' (hs @ [Subscribed n r]))"
    then have "d \<in> set (delivered_ids r' hs)" by (simp add: delivered_ids_append)
    then show "d < Suc n" using a by (simp add: less_Suc_eq)
  next
    fix r' d x
    assume "d \<in> set (delivered_ids r' (hs @ [Subscribed n r]))"
      and x: "x \<in> set (l @ [(n, r)])" "snd x = r'"
    then have "d \<in> set (delivered_ids r' hs)" by (simp add: delivered_ids_append)
    then have "d < n \<and> (\<forall>x \<in> set l. snd x = r' \<longrightarrow> d \<le> fst x)" using a by blast
    with x show "d \<le> fst x" by auto
  qed
  have 7: "sorted_wrt (<) (subscribed_ids (hs @ [Subscribed n r]))"
    using a by (simp add: subscribed_ids_append sorted_wrt_append)
  have 8: "\<forall>j \<in> set (subscribed_ids (hs @ [Subscribed n r])). j < Suc n"
    using a by (auto simp: subscribed_ids_append less_Suc_eq)
  show ?thesis
    unfolding tr_inv_def using 1 2 3 4 5 6 7 8 by blast
qed

lemma tr_inv_deliver:
  assumes "tr_inv l n hs" and live: "(i, r) \<in> set l"
  shows "tr_inv l n (hs @ [Delivered i r])"
proof -
  note a = assms(1) [unfolded tr_inv_def]
  have amo: "at_most_one l" by (rule tr_inv_at_most_one [OF assms(1)])
  have 1: "replay (hs @ [Delivered i r]) = l"
    using a by (simp add: replay_snoc)
  have 4: "\<forall>p. prefix p (hs @ [Delivered i r]) \<longrightarrow> at_most_one (replay p)"
  proof (intro allI impI)
    fix p assume "prefix p (hs @ [Delivered i r])"
    then consider "p = hs @ [Delivered i r]" | "prefix p hs" by (auto simp: prefix_snoc)
    then show "at_most_one (replay p)"
    proof cases
      case 1
      then show ?thesis using amo a by (simp add: replay_snoc)
    next
      case 2
      then show ?thesis using a by blast
    qed
  qed
  have 5: "\<forall>p j r'. prefix (p @ [Delivered j r']) (hs @ [Delivered i r]) \<longrightarrow> (j, r') \<in> set (replay p)"
    using a live by (auto simp: prefix_snoc)
  have le: "\<forall>d \<in> set (delivered_ids r hs). d \<le> i"
    using a live by fastforce
  have uniq: "\<forall>x \<in> set l. snd x = r \<longrightarrow> i \<le> fst x"
  proof (intro ballI impI)
    fix x assume "x \<in> set l" "snd x = r"
    then have "(fst x, r) \<in> set l" by (metis prod.collapse)
    from at_most_one_unique [OF amo live this] show "i \<le> fst x" by simp
  qed
  have lt: "i < n" using a live by fastforce
  have 6: "\<forall>r'. sorted (delivered_ids r' (hs @ [Delivered i r]))
            \<and> (\<forall>d \<in> set (delivered_ids r' (hs @ [Delivered i r])).
                  d < n \<and> (\<forall>x \<in> set l. snd x = r' \<longrightarrow> d \<le> fst x))"
    using a le uniq lt by (auto simp: delivered_ids_append sorted_append)
  have 7: "sorted_wrt (<) (subscribed_ids (hs @ [Delivered i r]))"
    using a by (simp add: subscribed_ids_append)
  have 8: "\<forall>j \<in> set (subscribed_ids (hs @ [Delivered i r])). j < n"
    using a by (simp add: subscribed_ids_append)
  show ?thesis
    unfolding tr_inv_def using 1 a 4 5 6 7 8 by blast
qed


lemma open_subs_updates:
  "open_subs (h\<lparr>state := s\<rparr>) = open_subs h"
  "open_subs (h\<lparr>query := q\<rparr>) = open_subs h"
  "open_subs (h\<lparr>result_deps := rd\<rparr>) = open_subs h"
  "open_subs (h\<lparr>result_cleanup := c\<rparr>) = open_subs h"
  "open_subs (h\<lparr>count_deps := cd\<rparr>) = open_subs h"
  "open_subs (h\<lparr>count_cleanup := c\<rparr>) = open_subs h"
  "open_subs (h\<lparr>mounted := b\<rparr>) = open_subs h"
  "open_subs (h\<lparr>history := hs\<rparr>) = open_subs h"
  by (simp_all add: open_subs_def)

lemma hook_inv_updates:
  "hook_inv (h\<lparr>state := s\<rparr>) rc cc = hook_inv h rc cc"
  "hook_inv (h\<lparr>query := q\<rparr>) rc cc = hook_inv h rc cc"
  "hook_inv (h\<lparr>result_deps := rd\<rparr>) rc cc = hook_inv h rc cc"
  "hook_inv (h\<lparr>result_cleanup := c\<rparr>) rc cc = hook_inv h rc cc"
  "hook_inv (h\<lparr>count_deps := cd\<rparr>) rc cc = hook_inv h rc cc"
  "hook_inv (h\<lparr>count_cleanup := c\<rparr>) rc cc = hook_inv h rc cc"
  "hook_inv (h\<lparr>mounted := b\<rparr>) rc cc = hook_inv h rc cc"
  by (simp_all add: hook_inv_def open_subs_updates)

lemma open_subs_unsubscribe:
  "open_subs (unsubscribe i h) = filter (\<lambda>x. fst x \<noteq> i) (open_subs h)"
  by (simp add: open_subs_def unsubscribe_def filter_map comp_def)

lemma open_subs_subscribe:
  "open_subs (snd (subscribe r q h)) = open_subs h @ [(next_sub h, r)]"
  by (simp add: open_subs_def subscribe_def)

lemma held_filter_other:
  assumes d: "distinct (map fst l)"
    and a: "filter (\<lambda>x. snd x = r) l = held c r"
    and b: "filter (\<lambda>x. snd x = r') l = [(i, r')]"
    and ne: "r \<noteq> r'"
  shows "filter (\<lambda>x. fst x \<noteq> i) (held c r) = held c r"
proof (cases c)
  case None
  then show ?thesis by simp
next
  case (Some j)
  have "(j, r) \<in> set (filter (\<lambda>x. snd x = r) l)" using a Some by simp
  then have j: "(j, r) \<in> set l" by simp
  have "(i, r') \<in> set (filter (\<lambda>x. snd x = r') l)" using b by simp
  then have i: "(i, r') \<in> set l" by simp
  have "j \<noteq> i" using eq_key_imp_eq_value [OF d j] i ne by auto
  with Some show ?thesis by simp
qed

lemma hook_inv_unsubscribe_result:
  assumes "hook_inv h (Some i) cc"
  shows "hook_inv (unsubscribe i h) None cc"
proof -
  note a = assms [unfolded hook_inv_def]
  have t: "tr_inv (open_subs (unsubscribe i h)) (next_sub (unsubscribe i h)) (history (unsubscribe i h))"
    using a tr_inv_unsubscribe [of "open_subs h" "next_sub h" "history h" i]
    by (simp add: open_subs_unsubscribe) (simp add: unsubscribe_def)
  have d: "distinct (map fst (open_subs h))" using a by (simp add: tr_inv_def)
  have r: "filter (\<lambda>x. snd x = ResultSub) (open_subs (unsubscribe i h)) = held None ResultSub"
  proof -
    have "filter (\<lambda>x. snd x = ResultSub) (filter (\<lambda>x. fst x \<noteq> i) (open_subs h))
          = filter (\<lambda>x. fst x \<noteq> i) (filter (\<lambda>x. snd x = ResultSub) (open_subs h))"
      by (simp add: conj_commute)
    then show ?thesis using a by (simp add: open_subs_unsubscribe)
  qed
  have c: "filter (\<lambda>x. snd x = CountSub) (open_subs (unsubscribe i h)) = held cc CountSub"
  proof -
    have "filter (\<lambda>x. snd x = CountSub) (filter (\<lambda>x. fst x \<noteq> i) (open_subs h))
          = filter (\<lambda>x. fst x \<noteq> i) (filter (\<lambda>x. snd x = CountSub) (open_subs h))"
      by (simp add: conj_commute)
    moreover have "filter (\<lambda>x. fst x \<noteq> i) (held cc CountSub) = held cc CountSub"
      using held_filter_other [OF d, of CountSub cc ResultSub i] a by simp
    ultimately show ?thesis using a by (simp add: open_subs_unsubscribe)
  qed
  show ?thesis unfolding hook_inv_def using t r c by blast
qed

lemma hook_inv_unsubscribe_count:
  assumes "hook_inv h rc (Some i)"
  shows "hook_inv (unsubscribe i h) rc None"
proof -
  note a = assms [unfolded hook_inv_def]
  have t: "tr_inv (open_subs (unsubscribe i h)) (next_sub (unsubscribe i h)) (history (unsubscribe i h))"
    using a tr_inv_unsubscribe [of "open_subs h" "next_sub h" "history h" i]
    by (simp add: open_subs_unsubscribe) (simp add: unsubscribe_def)
  have d: "distinct (map fst (open_subs h))" using a by (simp add: tr_inv_def)
  have c: "filter (\<lambda>x. snd x = CountSub) (open_subs (unsubscribe i h)) = held None CountSub"
  proof -
    have "filter (\<lambda>x. snd x = CountSub) (filter (\<lambda>x. fst x \<noteq> i) (open_subs h))
          = filter (\<lambda>x. fst x \<noteq> i) (filter (\<lambda>x. snd x = CountSub) (open_subs h))"
      by (simp add: conj_commute)
    then show ?thesis using a by (simp add: open_subs_unsubscribe)
  qed
  have r: "filter (\<lambda>x. snd x = ResultSub) (open_subs (unsubscribe i h)) = held rc ResultSub"
  proof -
    have "filter (\<lambda>x. snd x = ResultSub) (filter (\<lambda>x. fst x \<noteq> i) (open_subs h))
          = filter (\<lambda>x. fst x \<noteq> i) (filter (\<lambda>x. snd x = ResultSub) (open_subs h))"
      by (simp add: conj_commute)
    moreover have "filter (\<lambda>x. fst x \<noteq> i) (held rc ResultSub) = held rc ResultSub"
      using held_filter_other [OF d, of ResultSub rc CountSub i] a by simp
    ultimately show ?thesis using a by (simp add: open_subs_unsubscribe)
  qed
  show ?thesis unfolding hook_inv_def using t r c by blast
qed

lemma hook_inv_cleanup_result:
  "hook_inv h rc cc \<Longrightarrow> hook_inv (cleanup rc h) None cc"
  by (cases rc) (simp_all add: hook_inv_unsubscribe_result)

lemma hook_inv_cleanup_count:
  "hook_inv h rc cc \<Longrightarrow> hook_inv (cleanup cc h) rc None"
  by (cases cc) (simp_all add: hook_inv_unsubscribe_count)

lemma hook_inv_subscribe_result:
  assumes "hook_inv h None cc"
  shows "hook_inv (snd (subscribe ResultSub q h)) (Some (fst (subscribe ResultSub q h))) cc"
proof -
  note a = assms [unfolded hook_inv_def]
  have "tr_inv (open_subs h @ [(next_sub h, ResultSub)]) (Suc (next_sub h))
          (history h @ [Subscribed (next_sub h) ResultSub])"
    using a by (intro tr_inv_subscribe) simp_all
  then show ?thesis
    unfolding hook_inv_def using a
    by (simp add: open_subs_subscribe) (simp add: subscribe_def)
qed

lemma hook_inv_subscribe_count:
  assumes "hook_inv h rc None"
  shows "hook_inv (snd (subscribe CountSub q h)) rc (Some (fst (subscribe CountSub q h)))"
proof -
  note a = assms [unfolded hook_inv_def]
  have "tr_inv (open_subs h @ [(next_sub h, CountSub)]) (Suc (next_sub h))
          (history h @ [Subscribed (next_sub h) CountSub])"
    using a by (intro tr_inv_subscribe) simp_all
  then show ?thesis
    unfolding hook_inv_def using a
    by (simp add: open_subs_subscribe) (simp add: subscribe_def)
qed


lemma cleanup_frame:
  "state (cleanup c h) = state h"
  "query (cleanup c h) = query h"
  "mounted (cleanup c h) = mounted h"
  "result_deps (cleanup c h) = result_deps h"
  "result_cleanup (cleanup c h) = result_cleanup h"
  "count_deps (cleanup c h) = count_deps h"
  "count_cleanup (cleanup c h) = count_cleanup h"
  by (cases c; simp add: unsubscribe_def)+

lemma result_effect_frame:
  "query (snd (result_effect options h)) = query h"
  "mounted (snd (result_effect options h)) = mounted h"
  "result_deps (snd (result_effect options h)) = result_deps h"
  "result_cleanup (snd (result_effect options h)) = result_cleanup h"
  "count_deps (snd (result_effect options h)) = count_deps h"
  "count_cleanup (snd (result_effect options h)) = count_cleanup h"
  "page (state (snd (result_effect options h))) = page (state h)"
  "limit (state (snd (result_effect options h))) = limit (state h)"
  "pageCount (state (snd (result_effect options h))) = pageCount (state h)"
  "result (state (snd (result_effect options h))) = result (state h)"
  "isExhausted (state (snd (result_effect options h))) = isExhausted (state h)"
  by (simp_all add: result_effect_def subscribe_def Let_def split: option.split)

lemma count_effect_frame:
  "state (snd (count_effect options h)) = state h"
  "query (snd (count_effect options h)) = query h"
  "mounted (snd (count_effect options h)) = mounted h"
  "result_deps (snd (count_effect options h)) = result_deps h"
  "result_cleanup (snd (count_effect options h)) = result_cleanup h"
  "count_deps (snd (count_effect options h)) = count_deps h"
  "count_cleanup (snd (count_effect options h)) = count_cleanup h"
  by (simp_all add: count_effect_def subscribe_def Let_def split: option.split)

lemma count_effect_cleanup:
  "(fst (count_effect options h) \<noteq> None) = (js_truthy (page (state h)) \<and> query h \<noteq> None)"
  by (simp add: count_effect_def subscribe_def Let_def split: option.split)

lemma count_effect_cleanup_ex:
  "(\<exists>i. fst (count_effect options h) = Some i)
     = (js_truthy (page (state h)) \<and> (\<exists>q. query h = Some q))"
  using count_effect_cleanup [of options h] by simp

lemma result_effect_inv:
  assumes "hook_inv h None cc"
  shows "hook_inv (snd (result_effect options h)) (fst (result_effect options h)) cc"
proof (cases "query h")
  case None
  with assms show ?thesis by (simp add: result_effect_def)
next
  case (Some q)
  let ?h1 = "h\<lparr>state := reducer (state h) QueryChanged\<rparr>"
  have "hook_inv ?h1 None cc" using assms by (simp add: hook_inv_updates)
  from hook_inv_subscribe_result [OF this] Some show ?thesis
    by (simp add: result_effect_def Let_def case_prod_beta)
qed

lemma count_effect_inv:
  assumes "hook_inv h rc None"
  shows "hook_inv (snd (count_effect options h)) rc (fst (count_effect options h))"
proof (cases "js_truthy (page (state h)) \<and> query h \<noteq> None")
  case False
  with assms show ?thesis by (auto simp: count_effect_def split: option.split)
next
  case True
  then obtain q where q: "query h = Some q" by auto
  from hook_inv_subscribe_count [OF assms] True q show ?thesis
    by (simp add: count_effect_def Let_def case_prod_beta)
qed

lemma flush_effects_cases:
  "flush_effects options h =
     (let run_r = (result_deps h \<noteq> Some (result_deps_of options h));
          run_c = (count_deps h \<noteq> Some (count_deps_of options h));
          h1 = (if run_r then cleanup (result_cleanup h) h else h);
          h2 = (if run_c then cleanup (count_cleanup h) h1 else h1);
          h3 = (if run_r
                then (snd (result_effect options h2))
                       \<lparr>result_deps := Some (result_deps_of options h),
                        result_cleanup := fst (result_effect options h2)\<rparr>
                else h2);
          h4 = (if run_c
                then (snd (count_effect options h3))
                       \<lparr>count_deps := Some (count_deps_of options h),
                        count_cleanup := fst (count_effect options h3)\<rparr>
                else h3)
      in h4)"
  by (simp add: flush_effects_def Let_def case_prod_beta)

lemma flush_effects_inv:
  assumes "hook_inv h (result_cleanup h) (count_cleanup h)"
  shows "hook_inv (flush_effects options h)
           (result_cleanup (flush_effects options h)) (count_cleanup (flush_effects options h))"
proof -
  define run_r where "run_r = (result_deps h \<noteq> Some (result_deps_of options h))"
  define run_c where "run_c = (count_deps h \<noteq> Some (count_deps_of options h))"
  define h1 where "h1 = (if run_r then cleanup (result_cleanup h) h else h)"
  define h2 where "h2 = (if run_c then cleanup (count_cleanup h) h1 else h1)"
  define h3 where "h3 = (if run_r
                then (snd (result_effect options h2))
                       \<lparr>result_deps := Some (result_deps_of options h),
                        result_cleanup := fst (result_effect options h2)\<rparr>
                else h2)"
  define h4 where "h4 = (if run_c
                then (snd (count_effect options h3))
                       \<lparr>count_deps := Some (count_deps_of options h),
                        count_cleanup := fst (count_effect options h3)\<rparr>
                else h3)"
  have eq: "flush_effects options h = h4"
    unfolding flush_effects_cases Let_def h4_def h3_def h2_def h1_def run_r_def run_c_def ..
  have 1: "hook_inv h1 (if run_r then None else result_cleanup h) (count_cleanup h)"
    using assms by (simp add: h1_def hook_inv_cleanup_result)
  have 2: "hook_inv h2 (if run_r then None else result_cleanup h)
             (if run_c then None else count_cleanup h)"
    using 1 by (simp add: h2_def hook_inv_cleanup_count)
  have f2: "result_cleanup h2 = result_cleanup h" "count_cleanup h2 = count_cleanup h"
    by (simp_all add: h2_def h1_def cleanup_frame)
  have 3: "hook_inv h3 (result_cleanup h3) (if run_c then None else count_cleanup h)"
  proof (cases run_r)
    case True
    with 2 have "hook_inv h2 None (if run_c then None else count_cleanup h)" by simp
    from result_effect_inv [OF this] True show ?thesis
      by (simp add: h3_def hook_inv_updates)
  next
    case False
    with 2 f2 show ?thesis by (simp add: h3_def)
  qed
  have f3: "count_cleanup h3 = count_cleanup h"
    by (simp add: h3_def f2 result_effect_frame)
  have 4: "hook_inv h4 (result_cleanup h4) (count_cleanup h4)"
  proof (cases run_c)
    case True
    with 3 have "hook_inv h3 (result_cleanup h3) None" by simp
    from count_effect_inv [OF this] True show ?thesis
      by (simp add: h4_def hook_inv_updates count_effect_frame)
  next
    case False
    with 3 f3 show ?thesis by (simp add: h4_def)
  qed
  show ?thesis using 4 by (simp add: eq)
qed

lemma flush_effects_frame:
  "mounted (flush_effects options h) = mounted h"
  "query (flush_effects options h) = query h"
  "page (state (flush_effects options h)) = page (state h)"
  "limit (state (flush_effects options h)) = limit (state h)"
  "pageCount (state (flush_effects options h)) = pageCount (state h)"
  "result (state (flush_effects options h)) = result (state h)"
  "isExhausted (state (flush_effects options h)) = isExhausted (state h)"
  by (simp_all add: flush_effects_cases Let_def cleanup_frame result_effect_frame
        count_effect_frame)

lemma flush_effects_count_deps:
  "count_deps (flush_effects options h) = Some (count_deps_of options (flush_effects options h))"
proof -
  have "count_deps_of options (flush_effects options h) = count_deps_of options h"
    by (simp add: count_deps_of_def flush_effects_frame)
  moreover have "count_deps (flush_effects options h) = Some (count_deps_of options h)"
    by (simp add: flush_effects_cases Let_def cleanup_frame result_effect_frame
          count_effect_frame)
  ultimately show ?thesis by simp
qed

lemma flush_effects_count_coherent:
  assumes "count_coherent h"
  shows "count_coherent (flush_effects options h)"
proof (cases "count_deps h \<noteq> Some (count_deps_of options h)")
  case True
  then show ?thesis
    by (simp add: flush_effects_cases Let_def count_coherent_def count_deps_of_def
          count_effect_cleanup_ex count_effect_frame result_effect_frame cleanup_frame)
next
  case False
  with assms show ?thesis
    by (simp add: flush_effects_cases Let_def count_coherent_def
          count_effect_frame result_effect_frame cleanup_frame)
qed

lemma flush_effects_reach:
  assumes "mounted h" "hook_inv h (result_cleanup h) (count_cleanup h)" "count_coherent h"
  shows "reach_inv options (flush_effects options h)"
  using assms
  by (simp add: reach_inv_def flush_effects_frame flush_effects_inv
        flush_effects_count_coherent flush_effects_count_deps [symmetric])


lemma deliver_frame:
  "query (deliver toJSON options s documents h) = query h"
  "mounted (deliver toJSON options s documents h) = mounted h"
  "result_deps (deliver toJSON options s documents h) = result_deps h"
  "result_cleanup (deliver toJSON options s documents h) = result_cleanup h"
  "count_deps (deliver toJSON options s documents h) = count_deps h"
  "count_cleanup (deliver toJSON options s documents h) = count_cleanup h"
  "subscriptions (deliver toJSON options s documents h) = subscriptions h"
  "next_sub (deliver toJSON options s documents h) = next_sub h"
  by (simp_all add: deliver_def)

lemma hook_inv_deliver:
  assumes "hook_inv h rc cc" and "s \<in> set (subscriptions h)"
  shows "hook_inv (deliver toJSON options s documents h) rc cc"
proof -
  note a = assms(1) [unfolded hook_inv_def]
  have "(sub_id s, sub_role s) \<in> set (open_subs h)"
    using assms(2) by (auto simp: open_subs_def)
  with a have "tr_inv (open_subs h) (next_sub h) (history h @ [Delivered (sub_id s) (sub_role s)])"
    by (simp add: tr_inv_deliver)
  then show ?thesis
    unfolding hook_inv_def using a by (simp add: deliver_def open_subs_def)
qed

lemma mount_reach: "reach_inv options (mount options q)"
  unfolding mount_def
  by (rule flush_effects_reach)
     (simp_all add: hook_inv_def open_subs_def tr_inv_init count_coherent_def)

lemma count_coherent_updates:
  "count_coherent (h\<lparr>state := s\<rparr>) = count_coherent h"
  "count_coherent (h\<lparr>query := q\<rparr>) = count_coherent h"
  "count_coherent (deliver toJSON options sub documents h) = count_coherent h"
  by (simp_all add: count_coherent_def deliver_def split: option.split)

lemma flush_after_state:
  assumes "mounted h" "hook_inv h (result_cleanup h) (count_cleanup h)" "count_coherent h"
  shows "reach_inv options (flush_effects options (h\<lparr>state := s\<rparr>))"
  using assms
  by (intro flush_effects_reach) (simp_all add: hook_inv_updates count_coherent_updates)

lemma flush_after_query:
  assumes "mounted h" "hook_inv h (result_cleanup h) (count_cleanup h)" "count_coherent h"
  shows "reach_inv options (flush_effects options (h\<lparr>query := q\<rparr>))"
  using assms
  by (intro flush_effects_reach) (simp_all add: hook_inv_updates count_coherent_updates)

lemma step_reach:
  assumes "reach_inv options h"
  shows "reach_inv options (step toJSON options h ev)"
proof (cases "mounted h")
  case False
  then show ?thesis using assms by (simp add: step_def)
next
  case True
  with assms have inv: "hook_inv h (result_cleanup h) (count_cleanup h)"
    and coh: "count_coherent h"
    by (simp_all add: reach_inv_def)
  show ?thesis
  proof (cases ev)
    case CallFetchMore
    then show ?thesis using True flush_after_state [OF True inv coh]
      by (simp add: step_def)
  next
    case (CallFetchMoreTimes n)
    then show ?thesis using True flush_after_state [OF True inv coh]
      by (simp add: step_def)
  next
    case (CallFetchPage p)
    then show ?thesis using True flush_after_state [OF True inv coh]
      by (simp add: step_def)
  next
    case CallResetList
    then show ?thesis using True flush_after_state [OF True inv coh]
      by (simp add: step_def)
  next
    case (Emit i documents)
    show ?thesis
    proof (cases "find (\<lambda>s. sub_id s = i) (subscriptions h)")
      case None
      with Emit True assms show ?thesis by (simp add: step_def)
    next
      case (Some s)
      then have "s \<in> set (subscriptions h)"
        by (auto simp: find_Some_iff)
      from hook_inv_deliver [OF inv this]
      have "hook_inv (deliver toJSON options s documents h)
              (result_cleanup (deliver toJSON options s documents h))
              (count_cleanup (deliver toJSON options s documents h))"
        by (simp add: deliver_frame)
      moreover have "count_coherent (deliver toJSON options s documents h)"
        using coh by (simp add: count_coherent_updates deliver_frame)
      moreover have "mounted (deliver toJSON options s documents h)"
        using True by (simp add: deliver_frame)
      ultimately show ?thesis using Emit Some True
        by (simp add: step_def flush_effects_reach)
    qed
  next
    case (SetQuery q)
    then show ?thesis using True flush_after_query [OF True inv coh]
      by (simp add: step_def)
  next
    case Unmount
    have "hook_inv (cleanup (result_cleanup h) h) None (count_cleanup h)"
      by (rule hook_inv_cleanup_result [OF inv])
    then have "hook_inv (cleanup (count_cleanup h) (cleanup (result_cleanup h) h)) None None"
      by (rule hook_inv_cleanup_count)
    then show ?thesis using Unmount True
      by (simp add: step_def reach_inv_def hook_inv_updates)
  qed
qed

lemma run_snoc:
  "run toJSON options q (evs @ [ev]) = step toJSON options (run toJSON options q evs) ev"
  by (simp add: run_def)

lemma run_reach: "reach_inv options (run toJSON options q evs)"
proof (induction evs rule: rev_induct)
  case Nil
  show ?case by (simp add: run_def mount_reach)
next
  case (snoc ev evs)
  then show ?case by (simp add: run_snoc step_reach)
qed

lemma reach_inv_tr:
  "reach_inv options h \<Longrightarrow> tr_inv (open_subs h) (next_sub h) (history h)"
  by (simp add: reach_inv_def hook_inv_def split: if_splits)

lemma reach_inv_unmounted:
  "reach_inv options h \<Longrightarrow> \<not> mounted h \<Longrightarrow> subscriptions h = []"
proof -
  assume "reach_inv options h" "\<not> mounted h"
  then have r: "filter (\<lambda>x. snd x = ResultSub) (open_subs h) = []"
    and c: "filter (\<lambda>x. snd x = CountSub) (open_subs h) = []"
    by (simp_all add: reach_inv_def hook_inv_def)
  have "x \<notin> set (open_subs h)" for x
  proof (cases "snd x")
    case ResultSub
    with r show ?thesis by (auto simp: filter_empty_conv)
  next
    case CountSub
    with c show ?thesis by (auto simp: filter_empty_conv)
  qed
  then have "open_subs h = []" by (cases "open_subs h") auto
  then show ?thesis by (simp add: open_subs_def)
qed


lemma reach_inv_count_open:
  assumes "reach_inv options h"
  shows "(\<exists>s \<in> set (subscriptions h). sub_role s = CountSub)
           = (mounted h \<and> js_truthy (page (state h)) \<and> query h \<noteq> None)"
proof (cases "mounted h")
  case False
  with reach_inv_unmounted [OF assms] show ?thesis by simp
next
  case True
  with assms have f: "filter (\<lambda>x. snd x = CountSub) (open_subs h) = held (count_cleanup h) CountSub"
    and coh: "count_coherent h" and deps: "count_deps h = Some (count_deps_of options h)"
    by (simp_all add: reach_inv_def hook_inv_def)
  have "(\<exists>s \<in> set (subscriptions h). sub_role s = CountSub)
          = (filter (\<lambda>x. snd x = CountSub) (open_subs h) \<noteq> [])"
    by (auto simp: open_subs_def filter_empty_conv)
  also have "\<dots> = (count_cleanup h \<noteq> None)"
    unfolding f by (cases "count_cleanup h") simp_all
  also have "\<dots> = (js_truthy (page (state h)) \<and> query h \<noteq> None)"
    using coh deps by (simp add: count_coherent_def count_deps_of_def)
  finally show ?thesis using True by simp
qed

lemma fetchMore_funpow_other_mode:
  "getPaginationMode options \<noteq> InfiniteScroll \<Longrightarrow>
     (fetchMore options rendered ^^ n) current = current"
  by (induction n) (simp_all add: fetchMore_def)

lemma fetchMore_page_from_one:
  assumes "\<exists>k. 1 \<le> k \<and> page current = Some (Num k)"
  shows "\<exists>k. 1 \<le> k \<and> page (fetchMore options rendered current) = Some (Num k)"
  using assms by (auto simp: fetchMore_def)

lemma fetchMore_funpow_page_from_one:
  assumes "\<exists>k. 1 \<le> k \<and> page current = Some (Num k)"
  shows "\<exists>k. 1 \<le> k \<and> page ((fetchMore options rendered ^^ n) current) = Some (Num k)"
proof (induction n)
  case 0
  show ?case using assms by simp
next
  case (Suc n)
  from fetchMore_page_from_one [OF Suc] show ?case by simp
qed

lemma no_count_inv_updates:
  "no_count_inv (h\<lparr>query := q\<rparr>) = no_count_inv h"
  "no_count_inv (h\<lparr>result_deps := rd\<rparr>) = no_count_inv h"
  "no_count_inv (h\<lparr>result_cleanup := c\<rparr>) = no_count_inv h"
  "no_count_inv (h\<lparr>count_deps := cd\<rparr>) = no_count_inv h"
  "no_count_inv (h\<lparr>count_cleanup := c\<rparr>) = no_count_inv h"
  "no_count_inv (h\<lparr>mounted := b\<rparr>) = no_count_inv h"
  by (simp_all add: no_count_inv_def)

lemma no_count_inv_cleanup:
  "no_count_inv h \<Longrightarrow> no_count_inv (cleanup c h)"
  by (cases c) (auto simp: no_count_inv_def unsubscribe_def)

lemma no_count_inv_result_effect:
  "no_count_inv h \<Longrightarrow> no_count_inv (snd (result_effect options h))"
  by (auto simp: no_count_inv_def result_effect_def subscribe_def Let_def split: option.split)

lemma no_count_inv_count_effect:
  "no_count_inv h \<Longrightarrow> snd (count_effect options h) = h"
  by (simp add: no_count_inv_def count_effect_def)

lemma no_count_inv_flush:
  assumes "no_count_inv h"
  shows "no_count_inv (flush_effects options h)"
  using assms
  by (simp add: flush_effects_cases Let_def no_count_inv_updates no_count_inv_cleanup
        no_count_inv_result_effect no_count_inv_count_effect)

lemma no_count_inv_mount:
  assumes "getPaginationMode options = NoPagination" "falsy_int (startingPage options)"
  shows "no_count_inv (mount options q)"
proof -
  have "\<not> js_truthy (map_option Num (startingPage options))"
    using assms(2) by (cases "startingPage options") simp_all
  then show ?thesis
    unfolding mount_def using assms(1)
    by (intro no_count_inv_flush) (simp add: no_count_inv_def initialState_def)
qed

lemma no_count_inv_step:
  assumes mode: "getPaginationMode options = NoPagination" and inv: "no_count_inv h"
  shows "no_count_inv (step toJSON options h ev)"
proof (cases "mounted h")
  case False
  with inv show ?thesis by (simp add: step_def)
next
  case True
  have same: "no_count_inv (flush_effects options (h\<lparr>state := state h\<rparr>))"
    using inv by (simp add: no_count_inv_flush)
  show ?thesis
  proof (cases ev)
    case CallFetchMore
    with True mode same show ?thesis by (simp add: step_def fetchMore_def)
  next
    case (CallFetchMoreTimes n)
    with True mode same show ?thesis by (simp add: step_def fetchMore_funpow_other_mode)
  next
    case (CallFetchPage p)
    with True mode same show ?thesis by (simp add: step_def fetchPage_def)
  next
    case CallResetList
    with True mode same show ?thesis by (simp add: step_def resetList_def)
  next
    case (Emit i documents)
    show ?thesis
    proof (cases "find (\<lambda>s. sub_id s = i) (subscriptions h)")
      case None
      with Emit True inv show ?thesis by (simp add: step_def)
    next
      case (Some s)
      then have "s \<in> set (subscriptions h)" by (auto simp: find_Some_iff)
      with inv have r: "sub_role s = ResultSub" by (simp add: no_count_inv_def)
      have "no_count_inv (deliver toJSON options s documents h)"
        using inv r by (simp add: no_count_inv_def deliver_def result_callback_def Let_def)
      then show ?thesis using Emit Some True by (simp add: step_def no_count_inv_flush)
    qed
  next
    case (SetQuery q)
    with True inv show ?thesis
      by (simp add: step_def no_count_inv_flush no_count_inv_updates)
  next
    case Unmount
    with True inv show ?thesis
      by (simp add: step_def no_count_inv_cleanup no_count_inv_updates)
  qed
qed

lemma no_count_inv_run:
  assumes "getPaginationMode options = NoPagination" "falsy_int (startingPage options)"
  shows "no_count_inv (run toJSON options q evs)"
proof (induction evs rule: rev_induct)
  case Nil
  show ?case using assms by (simp add: run_def no_count_inv_mount)
next
  case (snoc ev evs)
  then show ?case using assms(1) by (simp add: run_snoc no_count_inv_step)
qed

lemma page_from_one_flush:
  "page_from_one (flush_effects options h) = page_from_one h"
  by (simp add: page_from_one_def flush_effects_frame)

lemma page_from_one_step:
  assumes mode: "getPaginationMode options = InfiniteScroll" and inv: "page_from_one h"
  shows "page_from_one (step toJSON options h ev)"
proof (cases "mounted h")
  case False
  with inv show ?thesis by (simp add: step_def)
next
  case True
  from inv obtain k where k: "1 \<le> k" "page (state h) = Some (Num k)"
    by (auto simp: page_from_one_def)
  show ?thesis
  proof (cases ev)
    case CallFetchMore
    have "page_from_one (h\<lparr>state := fetchMore options (state h) (state h)\<rparr>)"
      using k by (auto simp: page_from_one_def fetchMore_def)
    with CallFetchMore True show ?thesis by (simp add: step_def page_from_one_flush)
  next
    case (CallFetchMoreTimes n)
    have "\<exists>j. 1 \<le> j \<and> page (state h) = Some (Num j)" using k by blast
    from fetchMore_funpow_page_from_one [OF this, where options = options and rendered = "state h" and n = n]
    have "page_from_one (h\<lparr>state := (fetchMore options (state h) ^^ n) (state h)\<rparr>)"
      by (simp add: page_from_one_def)
    with CallFetchMoreTimes True show ?thesis by (simp add: step_def page_from_one_flush)
  next
    case (CallFetchPage p)
    have "page_from_one (h\<lparr>state := fetchPage options (state h) p\<rparr>)"
      using k mode by (simp add: page_from_one_def fetchPage_def)
    with CallFetchPage True show ?thesis by (simp add: step_def page_from_one_flush)
  next
    case CallResetList
    have "page_from_one (h\<lparr>state := resetList options (state h)\<rparr>)"
      using k by (auto simp: page_from_one_def resetList_def)
    with CallResetList True show ?thesis by (simp add: step_def page_from_one_flush)
  next
    case (Emit i documents)
    have "page_from_one (deliver toJSON options s documents h)" for s
      using k
      by (cases "sub_role s")
         (simp_all add: page_from_one_def deliver_def result_callback_def count_callback_def Let_def)
    with Emit True inv show ?thesis
      by (simp add: step_def page_from_one_flush split: option.split)
  next
    case (SetQuery q')
    have "page_from_one (h\<lparr>query := q'\<rparr>)"
      using inv by (simp add: page_from_one_def)
    with SetQuery True show ?thesis by (simp add: step_def page_from_one_flush)
  next
    case Unmount
    with True inv show ?thesis
      by (simp add: step_def page_from_one_def cleanup_frame)
  qed
qed

lemma page_from_one_run:
  assumes "getPaginationMode options = InfiniteScroll"
  shows "page_from_one (run toJSON options q evs)"
proof (induction evs rule: rev_induct)
  case Nil
  show ?case using assms
    by (simp add: run_def mount_def page_from_one_flush) (simp add: page_from_one_def initialState_def)
next
  case (snoc ev evs)
  then show ?case using assms by (simp add: run_snoc page_from_one_step)
qed

section \<open>Properties of a mounted hook\<close>

text \<open>
  What \<open>fetchMore\<close> does: outside infinite-scroll mode, or when the state of its render
  is fetching or exhausted, it leaves the current state as it is; otherwise it
  dispatches \<open>FetchMore pageSize\<close>, after which the current state is fetching, its limit
  has grown by the page size and a page number \<open>k\<close> has become \<open>k + 1\<close>. Called on the
  state of its own render it therefore does what is asked of it.
\<close>

lemma fetchMore_render_guard:
  "(getPaginationMode options \<noteq> InfiniteScroll \<or> isFetching rendered \<or> isExhausted rendered
      \<longrightarrow> fetchMore options rendered current = current)
   \<and> (getPaginationMode options = InfiniteScroll \<and> \<not> isFetching rendered
        \<and> \<not> isExhausted rendered
      \<longrightarrow> fetchMore options rendered current
            = reducer current (FetchMore (pageSize_of options))
          \<and> isFetching (fetchMore options rendered current) = True
          \<and> limit (fetchMore options rendered current) = limit current + pageSize_of options
          \<and> (\<forall>k. page current = Some (Num k)
                \<longrightarrow> page (fetchMore options rendered current) = Some (Num (k + 1))))"
  by (auto simp: fetchMore_def)

text \<open>
  C6. \<open>fetchMore\<close> is to leave the state as it is unless the mode is \<open>InfiniteScroll\<close>
  and the state is neither fetching nor exhausted. The hook does not keep this when
  \<open>fetchMore\<close> is called twice before the component is rendered again: the guard of the
  second call still reads the state of the render, which is not fetching, although the
  first call has set \<open>isFetching\<close> in the current state. With a page size of 2, after
  a first emission of two documents, the two calls take the page from 1 to 3 and the
  limit from 2 to 6, where a single accepted call gives page 2 and limit 4.
\<close>

theorem fetchMore_twice_in_one_render:
  "getPaginationMode infinite_opts = InfiniteScroll
   \<and> isFetching (state (run id infinite_opts (Some 0) [Emit 0 (Docs [1, 2 :: nat])])) = False
   \<and> isExhausted (state (run id infinite_opts (Some 0) [Emit 0 (Docs [1, 2 :: nat])])) = False
   \<and> page (state (run id infinite_opts (Some 0) [Emit 0 (Docs [1, 2 :: nat])])) = Some (Num 1)
   \<and> limit (state (run id infinite_opts (Some 0) [Emit 0 (Docs [1, 2 :: nat])])) = 2
   \<and> isFetching (fetchMore infinite_opts
         (state (run id infinite_opts (Some 0) [Emit 0 (Docs [1, 2 :: nat])]))
         (state (run id infinite_opts (Some 0) [Emit 0 (Docs [1, 2 :: nat])]))) = True
   \<and> page (state (run id infinite_opts (Some 0)
         [Emit 0 (Docs [1, 2 :: nat]), CallFetchMore])) = Some (Num 2)
   \<and> limit (state (run id infinite_opts (Some 0)
         [Emit 0 (Docs [1, 2 :: nat]), CallFetchMore])) = 4
   \<and> page (state (run id infinite_opts (Some 0)
         [Emit 0 (Docs [1, 2 :: nat]), CallFetchMoreTimes 2])) = Some (Num 3)
   \<and> limit (state (run id infinite_opts (Some 0)
         [Emit 0 (Docs [1, 2 :: nat]), CallFetchMoreTimes 2])) = 6"
  by code_simp

text \<open>
  C9. With a page size of at least 1, an emission of \<open>n\<close> documents on the count
  subscription dispatches \<open>CountPages\<close> with the ceiling of \<open>n / pageSize\<close>; the state
  after it has that page count, and its \<open>isFetching\<close> and \<open>result\<close> are unchanged. A
  mounted hook handles such an emission of its open count subscription in this way.
\<close>

theorem count_pages:
  "1 \<le> pageSize_of options \<Longrightarrow>
     count_callback options documents
       = CountPages (Num \<lceil>real (length (as_array documents)) / real_of_int (pageSize_of options)\<rceil>)
     \<and> pageCount (reducer s (count_callback options documents))
         = Num \<lceil>real (length (as_array documents)) / real_of_int (pageSize_of options)\<rceil>
     \<and> isFetching (reducer s (count_callback options documents)) = isFetching s
     \<and> result (reducer s (count_callback options documents)) = result s
     \<and> (mounted h \<and> find (\<lambda>x. sub_id x = i) (subscriptions h) = Some sub
          \<and> sub_role sub = CountSub \<longrightarrow>
          pageCount (state (step toJSON options h (Emit i documents)))
            = Num \<lceil>real (length (as_array documents)) / real_of_int (pageSize_of options)\<rceil>
          \<and> result (state (step toJSON options h (Emit i documents))) = result (state h))"
  by (simp add: count_callback_def js_ceil_div_def step_def deliver_def flush_effects_frame)

theorem count_pages_witness:
  "pageCount (reducer idle_state
       (count_callback traditional_opts (Docs [1, 2, 3, 4, 5, 6, 7, 8, 9, 10, 11, 12::nat])))
     = Num 3
   \<and> pageCount (reducer idle_state (count_callback traditional_opts (Doc (1::nat)))) = Num 1
   \<and> pageCount (state (step id traditional_opts (mount traditional_opts (Some 0)) (Emit 1 (Doc (1::nat)))))
     = Num 1"
proof -
  have f: "find (\<lambda>x. sub_id x = 1) (subscriptions (mount traditional_opts (Some 0) :: nat hook))
             = Some \<lparr>sub_id = 1, sub_role = CountSub, sub_query = base_query 0\<rparr>"
    by code_simp
  have m: "mounted (mount traditional_opts (Some 0) :: nat hook)"
    by code_simp
  have p: "1 \<le> pageSize_of traditional_opts"
    by (simp add: traditional_opts_def pageSize_of_def)
  show ?thesis
    using count_pages [OF p, of "Docs [1, 2, 3, 4, 5, 6, 7, 8, 9, 10, 11, 12::nat]" idle_state
            "mount traditional_opts (Some 0)" 1
            "\<lparr>sub_id = 1, sub_role = CountSub, sub_query = base_query 0\<rparr>" id]
          count_pages [OF p, of "Doc (1::nat)" idle_state
            "mount traditional_opts (Some 0)" 1
            "\<lparr>sub_id = 1, sub_role = CountSub, sub_query = base_query 0\<rparr>" id]
          f m
    by (simp add: traditional_opts_def pageSize_of_def ceiling_eq_iff)
qed

text \<open>
  C4. After every sequence of events, and at every moment of the history that led
  there, at most one result subscription and at most one count subscription are open:
  when a subscription of a role is opened, none of that role is open any more. An
  unmounted hook has no open subscription. An emission is applied only from a
  subscription that is open at that moment, and, as identifiers are handed out in
  increasing order, the results applied come from result subscriptions in the order in
  which these were opened: no result of a replaced subscription is applied after a result
  of its successor.
\<close>

theorem subscription_discipline:
  assumes "h = run toJSON options q evs"
  shows "replay (history h) = open_subs h
     \<and> at_most_one (open_subs h)
     \<and> (\<forall>p. prefix p (history h) \<longrightarrow> at_most_one (replay p))
     \<and> (\<forall>p i r. prefix (p @ [Subscribed i r]) (history h) \<longrightarrow> open_in_role r (replay p) = [])
     \<and> (\<not> mounted h \<longrightarrow> subscriptions h = [])
     \<and> subscriptions (step toJSON options h Unmount) = []
     \<and> (\<forall>p i r. prefix (p @ [Delivered i r]) (history h) \<longrightarrow> (i, r) \<in> set (replay p))
     \<and> sorted (delivered_ids ResultSub (history h))
     \<and> sorted_wrt (<) (subscribed_ids (history h))"
proof -
  have r: "reach_inv options h" unfolding assms by (rule run_reach)
  have t: "tr_inv (open_subs h) (next_sub h) (history h)" by (rule reach_inv_tr [OF r])
  note a = t [unfolded tr_inv_def]
  have 1: "replay (history h) = open_subs h" using a by blast
  have 2: "at_most_one (open_subs h)" by (rule tr_inv_at_most_one [OF t])
  have 3: "\<forall>p. prefix p (history h) \<longrightarrow> at_most_one (replay p)" using a by blast
  have 4: "\<forall>p i r. prefix (p @ [Subscribed i r]) (history h) \<longrightarrow> open_in_role r (replay p) = []"
  proof (intro allI impI)
    fix p i r assume "prefix (p @ [Subscribed i r]) (history h)"
    with 3 have "at_most_one (replay (p @ [Subscribed i r]))" by blast
    then show "open_in_role r (replay p) = []"
      by (cases r) (simp_all add: replay_snoc at_most_one_def open_in_role_def)
  qed
  have 5: "\<not> mounted h \<longrightarrow> subscriptions h = []"
    using reach_inv_unmounted [OF r] by blast
  have 6: "subscriptions (step toJSON options h Unmount) = []"
  proof -
    have "reach_inv options (step toJSON options h Unmount)" by (rule step_reach [OF r])
    moreover have "\<not> mounted (step toJSON options h Unmount)" by (simp add: step_def)
    ultimately show ?thesis by (rule reach_inv_unmounted)
  qed
  have 7: "\<forall>p i r. prefix (p @ [Delivered i r]) (history h) \<longrightarrow> (i, r) \<in> set (replay p)"
    using a by blast
  have 8: "sorted (delivered_ids ResultSub (history h))" using a by blast
  have 9: "sorted_wrt (<) (subscribed_ids (history h))" using a by blast
  show ?thesis using 1 2 3 4 5 6 7 8 9 by blast
qed

theorem subscription_discipline_witness:
  "history (run id infinite_opts (Some 0) scroll_events)
     = [Subscribed 0 ResultSub, Subscribed 1 CountSub, Delivered 0 ResultSub,
        Unsubscribed 0, Unsubscribed 1, Subscribed 2 ResultSub, Subscribed 3 CountSub,
        Delivered 2 ResultSub, Unsubscribed 2, Unsubscribed 3]
   \<and> at_most_one (replay [Subscribed 0 ResultSub, Subscribed 1 CountSub, Delivered 0 ResultSub,
        Unsubscribed 0, Unsubscribed 1, Subscribed 2 ResultSub])
   \<and> open_in_role ResultSub (replay [Subscribed 0 ResultSub, Subscribed 1 CountSub,
        Delivered 0 ResultSub, Unsubscribed 0, Unsubscribed 1]) = []
   \<and> (2, ResultSub) \<in> set (replay [Subscribed 0 ResultSub, Subscribed 1 CountSub,
        Delivered 0 ResultSub, Unsubscribed 0, Unsubscribed 1, Subscribed 2 ResultSub,
        Subscribed 3 CountSub])
   \<and> mounted (run id infinite_opts (Some 0) scroll_events) = False
   \<and> subscriptions (run id infinite_opts (Some 0) scroll_events) = []
   \<and> sorted (delivered_ids ResultSub (history (run id infinite_opts (Some 0) scroll_events)))"
proof -
  let ?h = "run id infinite_opts (Some 0) scroll_events"
  have hist: "history ?h
     = [Subscribed 0 ResultSub, Subscribed 1 CountSub, Delivered 0 ResultSub,
        Unsubscribed 0, Unsubscribed 1, Subscribed 2 ResultSub, Subscribed 3 CountSub,
        Delivered 2 ResultSub, Unsubscribed 2, Unsubscribed 3]"
    by code_simp
  have m: "mounted ?h = False" by code_simp
  note d = subscription_discipline [OF refl, of id infinite_opts "Some 0" scroll_events]
  from d have "\<forall>p. prefix p (history ?h) \<longrightarrow> at_most_one (replay p)" by blast
  then have a: "at_most_one (replay [Subscribed 0 ResultSub, Subscribed 1 CountSub,
        Delivered 0 ResultSub, Unsubscribed 0, Unsubscribed 1, Subscribed 2 ResultSub])"
    by (simp add: hist)
  from d have "\<forall>p i r. prefix (p @ [Subscribed i r]) (history ?h) \<longrightarrow> open_in_role r (replay p) = []"
    by blast
  from this [rule_format, of "[Subscribed 0 ResultSub, Subscribed 1 CountSub,
        Delivered 0 ResultSub, Unsubscribed 0, Unsubscribed 1]" 2 ResultSub]
  have b: "open_in_role ResultSub (replay [Subscribed 0 ResultSub, Subscribed 1 CountSub,
        Delivered 0 ResultSub, Unsubscribed 0, Unsubscribed 1]) = []"
    by (simp add: hist)
  from d have "\<forall>p i r. prefix (p @ [Delivered i r]) (history ?h) \<longrightarrow> (i, r) \<in> set (replay p)"
    by blast
  from this [rule_format, of "[Subscribed 0 ResultSub, Subscribed 1 CountSub,
        Delivered 0 ResultSub, Unsubscribed 0, Unsubscribed 1, Subscribed 2 ResultSub,
        Subscribed 3 CountSub]" 2 ResultSub]
  have c: "(2, ResultSub) \<in> set (replay [Subscribed 0 ResultSub, Subscribed 1 CountSub,
        Delivered 0 ResultSub, Unsubscribed 0, Unsubscribed 1, Subscribed 2 ResultSub,
        Subscribed 3 CountSub])"
    by (simp add: hist)
  from d m have e: "subscriptions ?h = []" by blast
  from d have f: "sorted (delivered_ids ResultSub (history ?h))" by blast
  show ?thesis using hist a b c m e f by blast
qed

text \<open>
  What the count effect does: a count subscription is open exactly while the hook is
  mounted, \<open>state.page\<close> is truthy and the query is an \<open>RxQuery\<close>; the mode is not
  asked. In infinite-scroll mode the page is always truthy. Only where the page stays
  falsy, without pagination and with no (or a zero) starting page, is no count
  subscription ever opened and no \<open>CountPages\<close> ever dispatched, so that the page count
  stays 0.
\<close>

lemma count_subscription_gate:
  assumes "h = run toJSON options q evs"
  shows "((\<exists>s \<in> set (subscriptions h). sub_role s = CountSub)
            = (mounted h \<and> js_truthy (page (state h)) \<and> query h \<noteq> None))
     \<and> (getPaginationMode options = InfiniteScroll \<longrightarrow> js_truthy (page (state h)))
     \<and> (getPaginationMode options = NoPagination \<and> falsy_int (startingPage options) \<longrightarrow>
          (\<forall>s \<in> set (subscriptions h). sub_role s \<noteq> CountSub)
          \<and> (\<forall>i. Subscribed i CountSub \<notin> set (history h))
          \<and> (\<forall>i. Delivered i CountSub \<notin> set (history h))
          \<and> pageCount (state h) = Num 0)"
proof -
  have r: "reach_inv options h" unfolding assms by (rule run_reach)
  have 1: "(\<exists>s \<in> set (subscriptions h). sub_role s = CountSub)
            = (mounted h \<and> js_truthy (page (state h)) \<and> query h \<noteq> None)"
    by (rule reach_inv_count_open [OF r])
  have 2: "getPaginationMode options = InfiniteScroll \<longrightarrow> js_truthy (page (state h))"
  proof
    assume "getPaginationMode options = InfiniteScroll"
    then have "page_from_one h" unfolding assms by (rule page_from_one_run)
    then show "js_truthy (page (state h))" by (auto simp: page_from_one_def)
  qed
  have 3: "getPaginationMode options = NoPagination \<and> falsy_int (startingPage options) \<longrightarrow>
          (\<forall>s \<in> set (subscriptions h). sub_role s \<noteq> CountSub)
          \<and> (\<forall>i. Subscribed i CountSub \<notin> set (history h))
          \<and> (\<forall>i. Delivered i CountSub \<notin> set (history h))
          \<and> pageCount (state h) = Num 0"
  proof
    assume "getPaginationMode options = NoPagination \<and> falsy_int (startingPage options)"
    then have "no_count_inv h" unfolding assms by (simp add: no_count_inv_run)
    then show "(\<forall>s \<in> set (subscriptions h). sub_role s \<noteq> CountSub)
          \<and> (\<forall>i. Subscribed i CountSub \<notin> set (history h))
          \<and> (\<forall>i. Delivered i CountSub \<notin> set (history h))
          \<and> pageCount (state h) = Num 0"
      by (simp add: no_count_inv_def)
  qed
  show ?thesis using 1 2 3 by blast
qed

lemma count_subscription_gate_example:
  "getPaginationMode plain_opts = NoPagination
   \<and> falsy_int (startingPage plain_opts)
   \<and> pageCount (state (run id plain_opts (Some 0) plain_events)) = Num 0
   \<and> Subscribed 1 CountSub \<notin> set (history (run id plain_opts (Some 0) plain_events))
   \<and> Delivered 1 CountSub \<notin> set (history (run id plain_opts (Some 0) plain_events))
   \<and> map sub_role (subscriptions (run id plain_opts (Some 0) plain_events)) = [ResultSub]
   \<and> getPaginationMode infinite_opts = InfiniteScroll
   \<and> js_truthy (page (state (run id infinite_opts (Some 0) scroll_events)))"
proof -
  have m: "getPaginationMode plain_opts = NoPagination" "falsy_int (startingPage plain_opts)"
    "getPaginationMode infinite_opts = InfiniteScroll"
    by (simp_all add: plain_opts_def infinite_opts_def getPaginationMode_def)
  have s: "map sub_role (subscriptions (run id plain_opts (Some 0) plain_events)) = [ResultSub]"
    by code_simp
  show ?thesis
    using count_subscription_gate [OF refl, of id plain_opts "Some 0" plain_events]
      count_subscription_gate [OF refl, of id infinite_opts "Some 0" scroll_events] m s
    by blast
qed

text \<open>
  C2. A count subscription is to exist in \<open>Traditional\<close> mode only, so that the page
  count stays 0 in the other two modes. The hook does not keep this: the count effect
  asks for a truthy \<open>state.page\<close> where every other mode-specific path asks for the
  mode, and the page is 1 from the start in infinite-scroll mode. There the hook opens
  a count subscription on mount, and an emission of three documents with a page size of
  2 sets the page count to 2. Without pagination but with a starting page the count
  subscription is opened as well, and the division by a page size of 0 makes the page
  count \<open>Infinity\<close>.
\<close>

theorem count_subscription_counterexample:
  "getPaginationMode infinite_opts = InfiniteScroll
   \<and> map sub_role (subscriptions (run id infinite_opts (Some 0) ([] :: nat event list)))
       = [ResultSub, CountSub]
   \<and> history (run id infinite_opts (Some 0) [Emit 1 (Docs [1, 2, 3 :: nat])])
       = [Subscribed 0 ResultSub, Subscribed 1 CountSub, Delivered 1 CountSub]
   \<and> pageCount (state (run id infinite_opts (Some 0) [Emit 1 (Docs [1, 2, 3 :: nat])])) = Num 2
   \<and> getPaginationMode unpaged_start_opts = NoPagination
   \<and> map sub_role (subscriptions (run id unpaged_start_opts (Some 0) ([] :: nat event list)))
       = [ResultSub, CountSub]
   \<and> pageCount (state (run id unpaged_start_opts (Some 0) [Emit 1 (Docs [1, 2, 3 :: nat])]))
       = PosInf"
  by code_simp

text \<open>
  The limit never becomes negative when the page size is not negative, and the page
  stays undefined or at least 1 when the starting page is at least 1, as long as
  \<open>fetchPage\<close> is not called with 0.
\<close>

lemma state_ok_flush:
  "state_ok (state (flush_effects options h)) = state_ok (state h)"
  by (simp add: state_ok_def flush_effects_frame)

lemma state_ok_step:
  assumes ps: "0 \<le> pageSize_of options"
    and scroll: "getPaginationMode options = InfiniteScroll \<longrightarrow> page_from_one h"
    and ok: "state_ok (state h)"
    and ev: "ev \<noteq> CallFetchPage 0"
  shows "state_ok (state (step toJSON options h ev))"
proof (cases "mounted h")
  case False
  with ok show ?thesis by (simp add: step_def)
next
  case True
  show ?thesis
  proof (cases ev)
    case CallFetchMore
    have "state_ok (fetchMore options (state h) (state h))"
      using ps scroll ok by (auto simp: state_ok_def fetchMore_def page_from_one_def)
    with CallFetchMore True show ?thesis by (simp add: step_def state_ok_flush)
  next
    case (CallFetchMoreTimes n)
    have "state_ok ((fetchMore options (state h) ^^ n) (state h))"
    proof (cases "getPaginationMode options = InfiniteScroll")
      case False
      with ok show ?thesis by (simp add: fetchMore_funpow_other_mode)
    next
      case mode: True
      with scroll have p: "\<exists>k. 1 \<le> k \<and> page (state h) = Some (Num k)"
        by (simp add: page_from_one_def)
      have "0 \<le> limit ((fetchMore options r ^^ n) (state h))" for r
        using ps ok by (induction n) (auto simp: state_ok_def fetchMore_def)
      moreover have "page_ok (page ((fetchMore options (state h) ^^ n) (state h)))"
        using fetchMore_funpow_page_from_one [OF p, where options = options and rendered = "state h" and n = n] by auto
      ultimately show ?thesis by (simp add: state_ok_def)
    qed
    with CallFetchMoreTimes True show ?thesis by (simp add: step_def state_ok_flush)
  next
    case (CallFetchPage p)
    with ev have "p \<noteq> 0" by simp
    then have "state_ok (fetchPage options (state h) p)"
      using ok by (auto simp: state_ok_def fetchPage_def)
    with CallFetchPage True show ?thesis by (simp add: step_def state_ok_flush)
  next
    case CallResetList
    have "state_ok (resetList options (state h))"
      using ps ok by (auto simp: state_ok_def resetList_def)
    with CallResetList True show ?thesis by (simp add: step_def state_ok_flush)
  next
    case (Emit i documents)
    have "state_ok (state (deliver toJSON options s documents h))" for s
      using ok
      by (cases "sub_role s")
         (simp_all add: state_ok_def deliver_def result_callback_def count_callback_def Let_def)
    with Emit True ok show ?thesis
      by (simp add: step_def state_ok_flush split: option.split)
  next
    case (SetQuery q')
    with True ok show ?thesis by (simp add: step_def state_ok_flush)
  next
    case Unmount
    with True ok show ?thesis by (simp add: step_def cleanup_frame)
  qed
qed

lemma state_ok_run:
  assumes ps: "0 \<le> pageSize_of options"
    and sp: "\<forall>k. startingPage options = Some k \<longrightarrow> 1 \<le> k"
    and evs: "CallFetchPage 0 \<notin> set evs"
  shows "state_ok (state (run toJSON options q evs))"
  using evs
proof (induction evs rule: rev_induct)
  case Nil
  have "page_ok (map_option Num (startingPage options))"
    using sp by (cases "startingPage options") simp_all
  then have "state_ok (initialState options)"
    using ps by (simp add: state_ok_def initialState_def)
  then show ?case by (simp add: run_def mount_def state_ok_flush)
next
  case (snoc ev evs)
  then have ok: "state_ok (state (run toJSON options q evs))" and ev: "ev \<noteq> CallFetchPage 0"
    by auto
  have "getPaginationMode options = InfiniteScroll \<longrightarrow> page_from_one (run toJSON options q evs)"
    by (simp add: page_from_one_run)
  from state_ok_step [OF ps this ok ev] show ?case by (simp add: run_snoc)
qed

text \<open>
  C3. In every state reached from the initial state the limit is at least 0 and a
  defined page is at least 1. The hook does not keep the second half: \<open>fetchPage\<close>
  rejects a page below 0, not below 1, so \<open>fetchPage 0\<close> is accepted in traditional mode
  and sets the page to 0; the query then subscribed to skips \<open>- pageSize\<close> documents.
\<close>

theorem fetchPage_zero_accepted:
  "getPaginationMode traditional_opts = Traditional
   \<and> page (state (run id traditional_opts (Some 0) ([] :: nat event list))) = Some (Num 1)
   \<and> page (state (run id traditional_opts (Some 0) [CallFetchPage 0 :: nat event])) = Some (Num 0)
   \<and> map sub_query (subscriptions (run id traditional_opts (Some 0) [CallFetchPage 0 :: nat event]))
       = [\<lparr>q_base = 0, q_skip = Some (Num (- 5)), q_limit = Some 5,
           q_sort = Some (''name'', asc)\<rparr>]"
  by code_simp

end
